theory Spec2Isabelle
  imports Main "HOL-Library.Word" "HOL-Library.Sublist" "HOL-Library.Multiset"
begin

section \<open>Strings\<close>

text \<open>
  A JavaScript string is a sequence of UTF-16 code units. The literals the program compares
  against are written as code units: the byte-order mark U+FEFF, the quote, the comma, the
  hyphen, the digit zero, and the two transaction kinds of the source, U+53CE U+5165
  (income) and U+652F U+51FA (expense).
\<close>

type_synonym jschar = "16 word"
type_synonym jsstring = "jschar list"

definition ascii :: "string \<Rightarrow> jsstring" where
  "ascii s = map of_char s"

abbreviation QUOTE :: jschar where "QUOTE \<equiv> 0x22"
abbreviation APOSTROPHE :: jschar where "APOSTROPHE \<equiv> 0x27"
abbreviation COMMA :: jschar where "COMMA \<equiv> 0x2C"
abbreviation HYPHEN :: jschar where "HYPHEN \<equiv> 0x2D"
abbreviation PLUS :: jschar where "PLUS \<equiv> 0x2B"
abbreviation ZERO :: jschar where "ZERO \<equiv> 0x30"
abbreviation LF :: jschar where "LF \<equiv> 0x0A"
abbreviation CR :: jschar where "CR \<equiv> 0x0D"
abbreviation BOM :: jschar where "BOM \<equiv> 0xFEFF"

definition INCOME :: jsstring where
  "INCOME = [0x53CE, 0x5165]"

definition EXPENSE :: jsstring where
  "EXPENSE = [0x652F, 0x51FA]"

text \<open>
  \<^verbatim>\<open>String.prototype.trim\<close> and the leading-blank skip of \<^verbatim>\<open>parseInt\<close> remove the
  ECMAScript WhiteSpace and LineTerminator code points.
\<close>

definition isWhiteSpace :: "jschar \<Rightarrow> bool" where
  "isWhiteSpace c =
     (c = 0x09 \<or> c = 0x0A \<or> c = 0x0B \<or> c = 0x0C \<or> c = 0x0D \<or> c = 0x20 \<or> c = 0xA0
      \<or> c = 0x1680 \<or> (0x2000 \<le> c \<and> c \<le> 0x200A) \<or> c = 0x2028 \<or> c = 0x2029
      \<or> c = 0x202F \<or> c = 0x205F \<or> c = 0x3000 \<or> c = 0xFEFF)"

definition trim :: "jsstring \<Rightarrow> jsstring" where
  "trim s = rev (dropWhile isWhiteSpace (rev (dropWhile isWhiteSpace s)))"

definition isDigit :: "jschar \<Rightarrow> bool" where
  "isDigit c = (0x30 \<le> c \<and> c \<le> 0x39)"

text \<open>\<^verbatim>\<open>s.padStart(2, '0')\<close>: a string of two or more code units is returned as it is.\<close>

definition padStart2 :: "jsstring \<Rightarrow> jsstring" where
  "padStart2 s = (if 2 \<le> length s then s else replicate (2 - length s) ZERO @ s)"

section \<open>Numbers\<close>

text \<open>
  The Number values the program computes with are the results of \<^verbatim>\<open>parseInt\<close> and sums and
  differences of them: NaN, the two infinities, and integer-valued doubles. \<open>Infinity True\<close>
  is the negative infinity. The two zeros are identified. \<open>roundDouble\<close> rounds a natural
  number to 53 significant bits, ties to even, as the conversion to a double does;
  \<open>toNumber\<close> is that conversion, overflowing to an infinity from \<open>2 ^ 1024\<close> on.
\<close>

datatype jsnum = NaN | Infinity bool | Num int

fun excess :: "nat \<Rightarrow> nat" where
  "excess m = (if m < 2 ^ 53 then 0 else Suc (excess (m div 2)))"

declare excess.simps [simp del]

definition roundDouble :: "nat \<Rightarrow> nat" where
  "roundDouble m =
     (let e = excess m; q = m div 2 ^ e; r = m mod 2 ^ e
      in if 2 ^ e < 2 * r \<or> (2 * r = 2 ^ e \<and> odd q) then (q + 1) * 2 ^ e else q * 2 ^ e)"

definition toNumber :: "int \<Rightarrow> jsnum" where
  "toNumber i =
     (let m = roundDouble (nat \<bar>i\<bar>)
      in if 2 ^ 1024 \<le> m then Infinity (i < 0)
         else Num (if i < 0 then - int m else int m))"

fun jsNeg :: "jsnum \<Rightarrow> jsnum" where
  "jsNeg NaN = NaN"
| "jsNeg (Infinity neg) = Infinity (\<not> neg)"
| "jsNeg (Num n) = Num (- n)"

fun jsAdd :: "jsnum \<Rightarrow> jsnum \<Rightarrow> jsnum" where
  "jsAdd NaN y = NaN"
| "jsAdd x NaN = NaN"
| "jsAdd (Infinity a) (Infinity b) = (if a = b then Infinity a else NaN)"
| "jsAdd (Infinity a) (Num n) = Infinity a"
| "jsAdd (Num n) (Infinity b) = Infinity b"
| "jsAdd (Num a) (Num b) = toNumber (a + b)"

definition jsSub :: "jsnum \<Rightarrow> jsnum \<Rightarrow> jsnum" where
  "jsSub x y = jsAdd x (jsNeg y)"

text \<open>The comparison \<^verbatim>\<open>x == y\<close> and \<^verbatim>\<open>x >= 0\<close> on Numbers: NaN equals nothing.\<close>

fun jsEq :: "jsnum \<Rightarrow> jsnum \<Rightarrow> bool" where
  "jsEq NaN y = False"
| "jsEq x NaN = False"
| "jsEq x y = (x = y)"

fun nonNegative :: "jsnum \<Rightarrow> bool" where
  "nonNegative NaN = False"
| "nonNegative (Infinity neg) = (\<not> neg)"
| "nonNegative (Num n) = (0 \<le> n)"

text \<open>Truthiness of a Number, as \<^verbatim>\<open>x || 0\<close> tests it: zero and NaN are falsy.\<close>

fun truthy :: "jsnum \<Rightarrow> bool" where
  "truthy NaN = False"
| "truthy (Infinity neg) = True"
| "truthy (Num n) = (n \<noteq> 0)"

text \<open>
  \<^verbatim>\<open>parseInt(str)\<close> with no radix: skip leading blanks, read one sign, switch to radix 16
  after a \<^verbatim>\<open>0x\<close> or \<^verbatim>\<open>0X\<close> prefix, read the longest run of digits of the radix, and
  give NaN when the run is empty. (ECMAScript lets an implementation replace decimal digits
  after the twentieth by zeros; the model keeps them.)
\<close>

definition digitOf :: "nat \<Rightarrow> jschar \<Rightarrow> nat option" where
  "digitOf R c =
     (let v = (if 0x30 \<le> c \<and> c \<le> 0x39 then Some (unat c - 48)
               else if 0x61 \<le> c \<and> c \<le> 0x7A then Some (unat c - 87)
               else if 0x41 \<le> c \<and> c \<le> 0x5A then Some (unat c - 55)
               else None)
      in case v of None \<Rightarrow> None | Some d \<Rightarrow> if d < R then Some d else None)"

fun leadingDigits :: "nat \<Rightarrow> jsstring \<Rightarrow> nat list" where
  "leadingDigits R [] = []"
| "leadingDigits R (c # cs) =
     (case digitOf R c of None \<Rightarrow> [] | Some d \<Rightarrow> d # leadingDigits R cs)"

definition mathInt :: "nat \<Rightarrow> nat list \<Rightarrow> nat" where
  "mathInt R ds = foldl (\<lambda>a d. a * R + d) 0 ds"

definition parseInt :: "jsstring \<Rightarrow> jsnum" where
  "parseInt str =
     (let S = dropWhile isWhiteSpace str;
          neg = (case S of [] \<Rightarrow> False | c # _ \<Rightarrow> c = HYPHEN);
          S1 = (case S of [] \<Rightarrow> [] | c # cs \<Rightarrow> if c = PLUS \<or> c = HYPHEN then cs else S);
          hex = (case S1 of a # b # _ \<Rightarrow> a = ZERO \<and> (b = 0x78 \<or> b = 0x58) | _ \<Rightarrow> False);
          R = (if hex then 16 else 10);
          Z = leadingDigits R (if hex then drop 2 S1 else S1)
      in if Z = [] then NaN
         else toNumber (if neg then - int (mathInt R Z) else int (mathInt R Z)))"

section \<open>CSV tokenizer\<close>

text \<open>
  \<^verbatim>\<open>splitCSVLine\<close>: the loop over the code units of the line, with its three variables
  \<^verbatim>\<open>result\<close>, \<^verbatim>\<open>current\<close> and \<^verbatim>\<open>inQuote\<close>.
\<close>

fun splitLoop :: "jsstring list \<Rightarrow> jsstring \<Rightarrow> bool \<Rightarrow> jsstring \<Rightarrow> jsstring list" where
  "splitLoop result current inQuote [] = result @ [current]"
| "splitLoop result current inQuote (c # cs) =
     (if c = QUOTE then splitLoop result current (\<not> inQuote) cs
      else if c = COMMA \<and> \<not> inQuote then splitLoop (result @ [current]) [] inQuote cs
      else splitLoop result (current @ [c]) inQuote cs)"

definition splitCSVLine :: "jsstring \<Rightarrow> jsstring list" where
  "splitCSVLine line = splitLoop [] [] False line"

text \<open>
  The tokenizer as the specification words it. A position is inside a quoted region when an
  odd number of quote characters precedes it (\<open>q\<close> is the state the line starts in); the
  separators are the commas outside quoted regions; the fields are the pieces of the line
  between consecutive separators, with the quote characters removed.
\<close>

definition insideQuotes :: "bool \<Rightarrow> jsstring \<Rightarrow> nat \<Rightarrow> bool" where
  "insideQuotes q line i = (q \<noteq> odd (length (filter (\<lambda>c. c = QUOTE) (take i line))))"

definition separators :: "bool \<Rightarrow> jsstring \<Rightarrow> nat list" where
  "separators q line =
     filter (\<lambda>i. line ! i = COMMA \<and> \<not> insideQuotes q line i) [0..<length line]"

fun segments :: "'a list \<Rightarrow> nat \<Rightarrow> nat list \<Rightarrow> 'a list list" where
  "segments line start [] = [drop start line]"
| "segments line start (p # ps) =
     take (p - start) (drop start line) # segments line (Suc p) ps"

definition fieldsFrom :: "bool \<Rightarrow> jsstring \<Rightarrow> jsstring list" where
  "fieldsFrom q line =
     map (filter (\<lambda>c. c \<noteq> QUOTE)) (segments line 0 (separators q line))"

definition tokenizer_spec :: "jsstring \<Rightarrow> jsstring list" where
  "tokenizer_spec line = fieldsFrom False line"

section \<open>Transactions\<close>

text \<open>
  A transaction as the program builds it. The three date parts are Numbers, or
  \<^verbatim>\<open>undefined\<close> when manual entry finds fewer than three parts in the date; \<open>OtherNumber\<close>
  stands for the result of \<^verbatim>\<open>Number(s)\<close> on a text that is neither blank nor a run of
  decimal digits (a sign, a fraction, an exponent, a radix prefix, or no number at all),
  whose value is not tracked. The text fields read from a CSV row are \<open>None\<close> when the row
  has no such column (\<^verbatim>\<open>undefined\<close>).
\<close>

datatype numfield = Undefined | Number jsnum | OtherNumber

record transaction =
  id' :: jsstring
  date :: jsstring
  year :: numfield
  month :: numfield
  day :: numfield
  type :: "jsstring option"
  category_med :: "jsstring option"
  category_sml :: "jsstring option"
  detail :: "jsstring option"
  amount :: jsnum
  value_type :: "jsstring option"
  payee :: "jsstring option"
  method_name :: "jsstring option"

datatype error = TypeError

section \<open>CSV import\<close>

text \<open>\<^verbatim>\<open>cols[i]\<close>: reading an array past its end gives \<^verbatim>\<open>undefined\<close>.\<close>

definition col :: "jsstring list \<Rightarrow> nat \<Rightarrow> jsstring option" where
  "col cols i = (if i < length cols then Some (cols ! i) else None)"

text \<open>The text of a value that is a string or \<^verbatim>\<open>undefined\<close>, as string conversion gives it.\<close>

definition stringOf :: "jsstring option \<Rightarrow> jsstring" where
  "stringOf v = (case v of None \<Rightarrow> ascii ''undefined'' | Some s \<Rightarrow> s)"

text \<open>
  \<^verbatim>\<open>parseAmount\<close>: a missing or empty field gives 0; otherwise the quotes, apostrophes and
  commas are removed, the rest is trimmed and read by \<^verbatim>\<open>parseInt\<close>, and a falsy result
  (NaN or zero) gives 0.
\<close>

definition cleanAmount :: "jsstring \<Rightarrow> jsstring" where
  "cleanAmount s = trim (filter (\<lambda>c. c \<noteq> QUOTE \<and> c \<noteq> APOSTROPHE \<and> c \<noteq> COMMA) s)"

definition parseAmount :: "jsstring option \<Rightarrow> jsnum" where
  "parseAmount str =
     (case str of
        None \<Rightarrow> Num 0
      | Some s \<Rightarrow>
          if s = [] then Num 0
          else let clean = cleanAmount s;
                   n = parseInt clean
               in if truthy n then n else Num 0)"

text \<open>
  For saying what \<^verbatim>\<open>parseAmount\<close> returns: \<open>readInteger\<close> is the integer a text spells
  under the reading rules of \<^verbatim>\<open>parseInt\<close> (sign, radix prefix, longest run of digits),
  before its conversion to a Number, or \<open>None\<close> when there is no digit to read. A text
  without leading blanks is \<open>unparsable\<close> when, after one optional sign, it does not begin
  with a decimal digit, or begins with \<^verbatim>\<open>0x\<close> or \<^verbatim>\<open>0X\<close> and no hexadecimal digit follows.
\<close>

definition readInteger :: "jsstring \<Rightarrow> int option" where
  "readInteger str =
     (let S = dropWhile isWhiteSpace str;
          neg = (case S of [] \<Rightarrow> False | c # _ \<Rightarrow> c = HYPHEN);
          S1 = (case S of [] \<Rightarrow> [] | c # cs \<Rightarrow> if c = PLUS \<or> c = HYPHEN then cs else S);
          hex = (case S1 of a # b # _ \<Rightarrow> a = ZERO \<and> (b = 0x78 \<or> b = 0x58) | _ \<Rightarrow> False);
          R = (if hex then 16 else 10);
          Z = leadingDigits R (if hex then drop 2 S1 else S1)
      in if Z = [] then None
         else Some (if neg then - int (mathInt R Z) else int (mathInt R Z)))"

definition beginsWithMinus :: "jsstring \<Rightarrow> bool" where
  "beginsWithMinus t = (case t of [] \<Rightarrow> False | c # _ \<Rightarrow> c = HYPHEN)"

definition isHexDigit :: "jschar \<Rightarrow> bool" where
  "isHexDigit c = (isDigit c \<or> (0x61 \<le> c \<and> c \<le> 0x66) \<or> (0x41 \<le> c \<and> c \<le> 0x46))"

definition unsignedPart :: "jsstring \<Rightarrow> jsstring" where
  "unsignedPart t = (case t of [] \<Rightarrow> [] | c # cs \<Rightarrow> if c = PLUS \<or> c = HYPHEN then cs else t)"

definition unparsable :: "jsstring \<Rightarrow> bool" where
  "unparsable t =
     (case unsignedPart t of
        [] \<Rightarrow> True
      | [a] \<Rightarrow> \<not> isDigit a
      | a # b # rest \<Rightarrow>
          if a = ZERO \<and> (b = 0x78 \<or> b = 0x58)
          then (case rest of [] \<Rightarrow> True | h # _ \<Rightarrow> \<not> isHexDigit h)
          else \<not> isDigit a)"

text \<open>
  Removing one leading byte-order mark, and splitting the content at each line feed or
  carriage return followed by line feed.
\<close>

definition removeBOM :: "jsstring \<Rightarrow> jsstring" where
  "removeBOM text = (case text of [] \<Rightarrow> [] | c # cs \<Rightarrow> if c = BOM then cs else text)"

fun splitLines :: "jsstring \<Rightarrow> jsstring \<Rightarrow> jsstring list" where
  "splitLines cur [] = [cur]"
| "splitLines cur [c] = (if c = LF then [cur, []] else [cur @ [c]])"
| "splitLines cur (c # d # cs) =
     (if c = LF then cur # splitLines [] (d # cs)
      else if c = CR \<and> d = LF then cur # splitLines [] cs
      else splitLines (cur @ [c]) (d # cs))"

text \<open>
  The validity check of the loop: a row passes when its first field is present, not empty, and matches
  the pattern of exactly four decimal digits.
\<close>

definition isDataRow :: "jsstring list \<Rightarrow> bool" where
  "isDataRow cols =
     (case col cols 0 of
        None \<Rightarrow> False
      | Some c0 \<Rightarrow> c0 \<noteq> [] \<and> length c0 = 4 \<and> list_all isDigit c0)"

text \<open>
  The body of the loop after the validity check. \<^verbatim>\<open>cols[1].padStart\<close> and \<^verbatim>\<open>cols[2].padStart\<close> are
  calls on what may be \<^verbatim>\<open>undefined\<close>: then the call throws a TypeError. \<open>uid\<close> is the
  identifier \<^verbatim>\<open>crypto.randomUUID()\<close> returns for this row.
\<close>

definition makeItem :: "jsstring \<Rightarrow> jsstring list \<Rightarrow> error + transaction" where
  "makeItem uid cols =
     (case col cols 1 of
        None \<Rightarrow> Inl TypeError
      | Some c1 \<Rightarrow>
     (case col cols 2 of
        None \<Rightarrow> Inl TypeError
      | Some c2 \<Rightarrow>
          let year' = stringOf (col cols 0); month' = padStart2 c1; day' = padStart2 c2
          in Inr \<lparr> id' = uid,
                   date = year' @ [HYPHEN] @ month' @ [HYPHEN] @ day',
                   year = Number (parseInt year'),
                   month = Number (parseInt month'),
                   day = Number (parseInt day'),
                   type = col cols 3,
                   category_med = col cols 4,
                   category_sml = col cols 5,
                   detail = col cols 6,
                   amount = parseAmount (col cols 7),
                   value_type = col cols 8,
                   payee = col cols 9,
                   method_name = col cols 10 \<rparr>))"

text \<open>
  The loop of \<^verbatim>\<open>parseCSVText\<close> over the lines after the first. \<open>uuid k\<close> is the \<open>k\<close>-th
  identifier drawn during the call, \<open>n\<close> counts the identifiers drawn so far, and
  \<open>expenses\<close> is the array built so far. A throw ends the call.
\<close>

fun parseRows ::
  "(nat \<Rightarrow> jsstring) \<Rightarrow> nat \<Rightarrow> transaction list \<Rightarrow> jsstring list \<Rightarrow> error + transaction list" where
  "parseRows uuid n expenses [] = Inr expenses"
| "parseRows uuid n expenses (l # ls) =
     (let line = trim l
      in if line = [] then parseRows uuid n expenses ls
         else let cols = splitCSVLine line
              in if \<not> isDataRow cols then parseRows uuid n expenses ls
                 else (case makeItem (uuid n) cols of
                         Inl e \<Rightarrow> Inl e
                       | Inr item \<Rightarrow> parseRows uuid (Suc n) (expenses @ [item]) ls))"

definition parseCSVText :: "(nat \<Rightarrow> jsstring) \<Rightarrow> jsstring \<Rightarrow> error + transaction list" where
  "parseCSVText uuid text =
     (let content = removeBOM text;
          lines = splitLines [] content
      in parseRows uuid 0 [] (drop 1 lines))"


text \<open>
  The lines the loop turns into rows, in the words of the specification: the lines after
  the header that are not empty once trimmed, tokenized, and of those the ones whose first
  field is exactly four digits.
\<close>

definition rowsOf :: "jsstring list \<Rightarrow> jsstring list list" where
  "rowsOf ls =
     filter isDataRow (map splitCSVLine (filter (\<lambda>line. line \<noteq> []) (map trim ls)))"

definition dataRows :: "jsstring \<Rightarrow> jsstring list list" where
  "dataRows text = rowsOf (drop 1 (splitLines [] (removeBOM text)))"

section \<open>Manual entry\<close>

text \<open>
  \<^verbatim>\<open>dateVal.split('-')\<close>, and \<^verbatim>\<open>Number(s)\<close> on the parts: blank text is 0, a run of decimal
  digits is its value, anything else is not tracked.
\<close>

fun splitOn :: "jschar \<Rightarrow> jsstring \<Rightarrow> jsstring \<Rightarrow> jsstring list" where
  "splitOn sep cur [] = [cur]"
| "splitOn sep cur (c # cs) =
     (if c = sep then cur # splitOn sep [] cs else splitOn sep (cur @ [c]) cs)"





definition decimal :: "jsstring \<Rightarrow> int" where
  "decimal s = int (foldl (\<lambda>a c. a * 10 + (unat c - 48)) 0 s)"




section \<open>Deletion\<close>

text \<open>
  \<^verbatim>\<open>deleteTransaction\<close>: \<open>confirmed\<close> is the answer of the confirmation dialog; when it is
  declined nothing changes.
\<close>

definition deleteTransaction :: "bool \<Rightarrow> jsstring \<Rightarrow> transaction list \<Rightarrow> transaction list" where
  "deleteTransaction confirmed i transactions =
     (if \<not> confirmed then transactions else filter (\<lambda>t. id' t \<noteq> i) transactions)"

section \<open>Month totals\<close>

text \<open>
  The statistics of \<^verbatim>\<open>renderDashboard\<close> for the month \<open>targetMonth\<close>: the records whose date
  starts with it, the sum of the amounts of its income records and of its expense records,
  each a \<^verbatim>\<open>reduce\<close> from 0, and their difference. With an empty store the three displayed
  numbers are 0.
\<close>

definition currentMonthData :: "transaction list \<Rightarrow> jsstring \<Rightarrow> transaction list" where
  "currentMonthData transactions targetMonth =
     filter (\<lambda>t. prefix targetMonth (date t)) transactions"

definition sumAmounts :: "transaction list \<Rightarrow> jsnum" where
  "sumAmounts ts = foldl (\<lambda>sum t. jsAdd sum (amount t)) (Num 0) ts"

definition renderDashboard :: "transaction list \<Rightarrow> jsstring \<Rightarrow> jsnum \<times> jsnum \<times> jsnum" where
  "renderDashboard transactions targetMonth =
     (if transactions = [] then (Num 0, Num 0, Num 0)
      else let data = currentMonthData transactions targetMonth;
               income = sumAmounts (filter (\<lambda>t. type t = Some INCOME) data);
               expense = sumAmounts (filter (\<lambda>t. type t = Some EXPENSE) data);
               balance = jsSub income expense
           in (income, expense, balance))"

definition income :: "transaction list \<Rightarrow> jsstring \<Rightarrow> jsnum" where
  "income T M = fst (renderDashboard T M)"

definition expense :: "transaction list \<Rightarrow> jsstring \<Rightarrow> jsnum" where
  "expense T M = fst (snd (renderDashboard T M))"

definition balance :: "transaction list \<Rightarrow> jsstring \<Rightarrow> jsnum" where
  "balance T M = snd (snd (renderDashboard T M))"

section \<open>Category totals\<close>

text \<open>
  \<^verbatim>\<open>renderCharts\<close> keeps the totals in an object literal \<^verbatim>\<open>{}\<close>, which inherits the members
  of \<^verbatim>\<open>Object.prototype\<close>. The model keeps the own properties in the order they were
  created; a property value is a Number or a string (\<open>Text\<close>, content not tracked). The
  property key of a missing category is the text \<^verbatim>\<open>undefined\<close>.

  Reading \<^verbatim>\<open>totals[k]\<close> for a key that is not an own property finds the inherited member
  when \<open>k\<close> names one: an object or a function, which is truthy, so that
  \<^verbatim>\<open>(totals[k] || 0) + t.amount\<close> is a string concatenation. Writing that string to
  \<^verbatim>\<open>__proto__\<close> goes to the inherited setter, which ignores a value that is not an object;
  writing it to any other inherited name creates an own property holding the string.
  Adding a Number to a string that is already stored gives a string again.
\<close>

datatype propval = NumberVal jsnum | Text

definition inheritedMethods :: "jsstring list" where
  "inheritedMethods =
     [ascii ''constructor'', ascii ''hasOwnProperty'', ascii ''isPrototypeOf'',
      ascii ''propertyIsEnumerable'', ascii ''toLocaleString'', ascii ''toString'',
      ascii ''valueOf'', ascii ''__defineGetter__'', ascii ''__defineSetter__'',
      ascii ''__lookupGetter__'', ascii ''__lookupSetter__'']"

definition propertyKey :: "jsstring option \<Rightarrow> jsstring" where
  "propertyKey k = stringOf k"

fun setOwn :: "jsstring \<Rightarrow> propval \<Rightarrow> (jsstring \<times> propval) list \<Rightarrow> (jsstring \<times> propval) list" where
  "setOwn k v [] = [(k, v)]"
| "setOwn k v ((k', v') # ps) = (if k' = k then (k, v) # ps else (k', v') # setOwn k v ps)"

definition addToTotals ::
  "(jsstring \<times> propval) list \<Rightarrow> transaction \<Rightarrow> (jsstring \<times> propval) list" where
  "addToTotals totals t =
     (let k = propertyKey (category_med t)
      in case map_of totals k of
           Some (NumberVal v) \<Rightarrow>
             setOwn k (NumberVal (jsAdd (if truthy v then v else Num 0) (amount t))) totals
         | Some Text \<Rightarrow> setOwn k Text totals
         | None \<Rightarrow>
             if k = ascii ''__proto__'' then totals
             else if k \<in> set inheritedMethods then setOwn k Text totals
             else setOwn k (NumberVal (jsAdd (Num 0) (amount t))) totals)"

text \<open>
  \<^verbatim>\<open>Object.keys\<close> and \<^verbatim>\<open>Object.values\<close> list the own properties of the object in the order
  of the language: first the keys that are array indices (the decimal numerals of the
  integers from 0 to \<open>2 ^ 32 - 2\<close>, without leading zeros) in ascending numeric order, then
  the other keys in the order of their creation. \<^verbatim>\<open>renderCharts\<close> hands the two lists to the
  chart as its labels and its data.
\<close>

fun isArrayIndex :: "jsstring \<Rightarrow> bool" where
  "isArrayIndex [] = False"
| "isArrayIndex (c # cs) =
     (list_all isDigit (c # cs)
      \<and> (if c = ZERO then cs = [] else decimal (c # cs) < 4294967295))"

definition ownEntries :: "(jsstring \<times> propval) list \<Rightarrow> (jsstring \<times> propval) list" where
  "ownEntries totals =
     sort_key (\<lambda>p. decimal (fst p)) (filter (\<lambda>p. isArrayIndex (fst p)) totals)
     @ filter (\<lambda>p. \<not> isArrayIndex (fst p)) totals"

record chart =
  labels :: "jsstring list"
  chartData :: "propval list"

definition renderCharts :: "transaction list \<Rightarrow> chart" where
  "renderCharts data =
     (let expenses = filter (\<lambda>t. type t = Some EXPENSE) data;
          totals = foldl addToTotals [] expenses
      in \<lparr>labels = map fst (ownEntries totals), chartData = map snd (ownEntries totals)\<rparr>)"

definition categoryTotals :: "transaction list \<Rightarrow> jsstring \<Rightarrow> chart" where
  "categoryTotals T M = renderCharts (currentMonthData T M)"

text \<open>
  The sum of the values of the chart's data, when all of them are Numbers; \<open>None\<close> when a
  value is a string.
\<close>

fun sumValues :: "propval list \<Rightarrow> jsnum option" where
  "sumValues [] = Some (Num 0)"
| "sumValues (Text # vs) = None"
| "sumValues (NumberVal v # vs) =
     (case sumValues vs of None \<Rightarrow> None | Some s \<Rightarrow> Some (jsAdd v s))"

section \<open>Day detail\<close>

text \<open>
  The decimal text of an integer, as a template literal and \<^verbatim>\<open>String(n)\<close> produce it for
  the years, months and days of a calendar.
\<close>

fun digits :: "nat \<Rightarrow> jsstring" where
  "digits n = (if n < 10 then [ZERO + of_nat n] else digits (n div 10) @ [ZERO + of_nat (n mod 10)])"

declare digits.simps [simp del]

definition numberToString :: "int \<Rightarrow> jsstring" where
  "numberToString i = (if i < 0 then HYPHEN # digits (nat (- i)) else digits (nat i))"

definition dateStr :: "int \<Rightarrow> nat \<Rightarrow> nat \<Rightarrow> jsstring" where
  "dateStr year' month' day' =
     numberToString year' @ [HYPHEN] @ padStart2 (numberToString (int month' + 1))
       @ [HYPHEN] @ padStart2 (numberToString (int day'))"

text \<open>The comparator of \<^verbatim>\<open>openDayDetail\<close>.\<close>

definition dayCompare :: "transaction \<Rightarrow> transaction \<Rightarrow> jsnum" where
  "dayCompare a b =
     (if type a \<noteq> type b then (if type a = Some INCOME then Num (- 1) else Num 1)
      else jsSub (amount b) (amount a))"

text \<open>
  \<^verbatim>\<open>Array.prototype.sort\<close> as ECMAScript (2019 and later) specifies it. The comparator's
  result is read by its sign, NaN as 0. When the comparator is a consistent comparator for
  the elements, the result is the stable sort; otherwise the order is
  implementation-defined, and all that is known is that the result is a permutation.
\<close>

definition sortCompare :: "('a \<Rightarrow> 'a \<Rightarrow> jsnum) \<Rightarrow> 'a \<Rightarrow> 'a \<Rightarrow> int" where
  "sortCompare cmp a b =
     (case cmp a b of NaN \<Rightarrow> 0 | Infinity neg \<Rightarrow> (if neg then - 1 else 1) | Num n \<Rightarrow> sgn n)"

definition consistentComparator :: "('a \<Rightarrow> 'a \<Rightarrow> jsnum) \<Rightarrow> 'a list \<Rightarrow> bool" where
  "consistentComparator cmp xs =
     (list_all (\<lambda>a. list_all (\<lambda>b. cmp a b \<noteq> NaN) xs) xs
      \<and> list_all (\<lambda>a. sortCompare cmp a a = 0) xs
      \<and> list_all (\<lambda>a. list_all (\<lambda>b.
            sortCompare cmp a b = 0 \<longrightarrow> sortCompare cmp b a = 0) xs) xs
      \<and> list_all (\<lambda>a. list_all (\<lambda>b. list_all (\<lambda>c.
            (sortCompare cmp a b = 0 \<and> sortCompare cmp b c = 0 \<longrightarrow> sortCompare cmp a c = 0)
            \<and> (sortCompare cmp a b < 0 \<and> sortCompare cmp b c < 0 \<longrightarrow> sortCompare cmp a c < 0)
            \<and> (sortCompare cmp a b > 0 \<and> sortCompare cmp b c > 0 \<longrightarrow> sortCompare cmp a c > 0))
          xs) xs) xs)"

fun insertSorted :: "('a \<Rightarrow> 'a \<Rightarrow> jsnum) \<Rightarrow> 'a \<Rightarrow> 'a list \<Rightarrow> 'a list" where
  "insertSorted cmp x [] = [x]"
| "insertSorted cmp x (y # ys) =
     (if sortCompare cmp x y \<le> 0 then x # y # ys else y # insertSorted cmp x ys)"

definition stableSort :: "('a \<Rightarrow> 'a \<Rightarrow> jsnum) \<Rightarrow> 'a list \<Rightarrow> 'a list" where
  "stableSort cmp xs = foldr (insertSorted cmp) xs []"

definition sortResult :: "('a \<Rightarrow> 'a \<Rightarrow> jsnum) \<Rightarrow> 'a list \<Rightarrow> 'a list \<Rightarrow> bool" where
  "sortResult cmp xs ys =
     (mset ys = mset xs \<and> (consistentComparator cmp xs \<longrightarrow> ys = stableSort cmp xs))"

text \<open>
  \<^verbatim>\<open>openDayDetail\<close>: \<open>openDayDetail T y m d ys\<close> holds when \<open>ys\<close> is a list the function may
  display for the day \<open>d\<close> of the month \<open>m\<close> (counted from 0) of the year \<open>y\<close>.
\<close>

definition dayData :: "transaction list \<Rightarrow> int \<Rightarrow> nat \<Rightarrow> nat \<Rightarrow> transaction list" where
  "dayData transactions year' month' day' =
     filter (\<lambda>t. date t = dateStr year' month' day') transactions"

definition openDayDetail ::
  "transaction list \<Rightarrow> int \<Rightarrow> nat \<Rightarrow> nat \<Rightarrow> transaction list \<Rightarrow> bool" where
  "openDayDetail transactions year' month' day' ys =
     sortResult dayCompare (dayData transactions year' month' day') ys"

text \<open>
  The order the day list is meant to have: income records first, and within one type the
  amounts descending.
\<close>

fun incomeFirst :: "transaction list \<Rightarrow> bool" where
  "incomeFirst [] = True"
| "incomeFirst (t # ts) =
     ((type t = Some INCOME \<or> list_all (\<lambda>u. type u \<noteq> Some INCOME) ts) \<and> incomeFirst ts)"

fun amountsDescending :: "transaction list \<Rightarrow> bool" where
  "amountsDescending [] = True"
| "amountsDescending (t # ts) =
     (list_all (\<lambda>u. type u = type t \<longrightarrow> nonNegative (jsSub (amount t) (amount u))) ts
      \<and> amountsDescending ts)"

text \<open>
  A day's record is plain when it is an income or an expense record with a finite amount.
  On plain records the comparator orders by \<open>rank\<close> (income before expense) and then by
  the amount \<open>amt\<close>, larger first; \<open>before a b\<close> says that the comparator does not put
  \<open>a\<close> after \<open>b\<close>.
\<close>

definition plainRecord :: "transaction \<Rightarrow> bool" where
  "plainRecord t =
     ((type t = Some INCOME \<or> type t = Some EXPENSE)
      \<and> (case amount t of Num a \<Rightarrow> True | _ \<Rightarrow> False))"

definition rank :: "transaction \<Rightarrow> int" where
  "rank t = (if type t = Some INCOME then 0 else 1)"

definition amt :: "transaction \<Rightarrow> int" where
  "amt t = (case amount t of Num a \<Rightarrow> a | _ \<Rightarrow> 0)"

abbreviation before :: "transaction \<Rightarrow> transaction \<Rightarrow> bool" where
  "before a b \<equiv> sortCompare dayCompare a b \<le> 0"

text \<open>
  An ordinary key names no member of \<^verbatim>\<open>Object.prototype\<close>. \<open>magnitude\<close> adds up the
  absolute amounts of a list of records: while it stays below \<open>2 ^ 53\<close> every sum the
  program forms over these records is exact.
\<close>

definition ordinaryKey :: "jsstring \<Rightarrow> bool" where
  "ordinaryKey k = (k \<noteq> ascii ''__proto__'' \<and> k \<notin> set inheritedMethods)"

definition finiteAmount :: "transaction \<Rightarrow> bool" where
  "finiteAmount t = (case amount t of Num a \<Rightarrow> True | _ \<Rightarrow> False)"

definition monthExpenses :: "transaction list \<Rightarrow> jsstring \<Rightarrow> transaction list" where
  "monthExpenses T M = filter (\<lambda>t. type t = Some EXPENSE) (currentMonthData T M)"

definition magnitude :: "transaction list \<Rightarrow> int" where
  "magnitude ts = (\<Sum>t\<leftarrow>ts. \<bar>amt t\<bar>)"

fun numberOf :: "propval \<Rightarrow> int" where
  "numberOf (NumberVal (Num n)) = n"
| "numberOf v = 0"

fun isFinite :: "propval \<Rightarrow> bool" where
  "isFinite (NumberVal (Num n)) = True"
| "isFinite v = False"

text \<open>Sample data for the closed statements below.\<close>

definition sampleUUID :: "nat \<Rightarrow> jsstring" where
  "sampleUUID k = ascii ''id-'' @ digits k"

definition sampleRecord :: "jsstring \<Rightarrow> jsstring \<Rightarrow> jsstring \<Rightarrow> jsstring \<Rightarrow> int \<Rightarrow> transaction" where
  "sampleRecord i d ty cat a =
     \<lparr> id' = i, date = d,
       year = Number (Num (decimal (take 4 d))),
       month = Number (Num (decimal (take 2 (drop 5 d)))),
       day = Number (Num (decimal (drop 8 d))),
       type = Some ty, category_med = Some cat, category_sml = Some [],
       detail = Some [], amount = Num a, value_type = Some [], payee = Some [],
       method_name = Some [] \<rparr>"

definition sampleStore :: "transaction list" where
  "sampleStore =
     [sampleRecord (ascii ''a'') (ascii ''2025-03-15'') EXPENSE (ascii ''food'') 100,
      sampleRecord (ascii ''b'') (ascii ''2025-03-15'') (ascii ''transfer'') (ascii ''bank'') 5,
      sampleRecord (ascii ''c'') (ascii ''2025-03-15'') EXPENSE (ascii ''food'') 200]"

definition sampleMonth :: "transaction list" where
  "sampleMonth =
     [sampleRecord (ascii ''a'') (ascii ''2025-03-15'') EXPENSE (ascii ''food'') 1200,
      sampleRecord (ascii ''b'') (ascii ''2025-03-16'') INCOME (ascii ''pay'') 300000,
      sampleRecord (ascii ''c'') (ascii ''2025-04-01'') EXPENSE (ascii ''rent'') 70000]"

section \<open>Proofs: tokenizer\<close>

lemma insideQuotes_Cons:
  "insideQuotes q (c # cs) (Suc i) = insideQuotes (if c = QUOTE then \<not> q else q) cs i"
  by (auto simp: insideQuotes_def)

lemma separators_Cons:
  "separators q (c # cs) =
     (if c = COMMA \<and> \<not> q then [0] else []) @
     map Suc (separators (if c = QUOTE then \<not> q else q) cs)"
proof -
  have up: "[0..<length (c # cs)] = 0 # map Suc [0..<length cs]"
    by (simp add: upt_conv_Cons map_Suc_upt del: upt_Suc)
  have z: "insideQuotes q (c # cs) 0 = q"
    by (simp add: insideQuotes_def)
  show ?thesis
    unfolding separators_def up
    by (simp add: filter_map o_def insideQuotes_Cons z del: upt_Suc)
qed

lemma segments_shift: "segments (c # cs) (Suc s) (map Suc ps) = segments cs s ps"
  by (induction ps arbitrary: s) auto

lemma segments_nonempty: "segments l s ps \<noteq> []"
  by (cases ps) auto

lemma segments_Cons0:
  "segments (c # cs) 0 (map Suc ps) = (c # hd (segments cs 0 ps)) # tl (segments cs 0 ps)"
  by (cases ps) (auto simp: segments_shift)

lemma fieldsFrom_nonempty: "fieldsFrom q cs \<noteq> []"
  by (simp add: fieldsFrom_def segments_nonempty)

lemma fieldsFrom_Nil: "fieldsFrom q [] = [[]]"
  by (simp add: fieldsFrom_def separators_def)

lemma fieldsFrom_Cons:
  "fieldsFrom q (c # cs) =
     (if c = QUOTE then fieldsFrom (\<not> q) cs
      else if c = COMMA \<and> \<not> q then [] # fieldsFrom q cs
      else (c # hd (fieldsFrom q cs)) # tl (fieldsFrom q cs))"
proof -
  have glue: "\<And>f ps. f (hd (segments cs 0 ps)) # tl (map f (segments cs 0 ps))
      = map f (segments cs 0 ps)"
    by (metis list.collapse list.simps(9) list.sel(3) segments_nonempty)
  show ?thesis
    by (simp add: fieldsFrom_def separators_Cons segments_shift segments_Cons0
        hd_map segments_nonempty map_tl glue)
qed

lemma splitLoop_fieldsFrom:
  "splitLoop result current q cs =
     result @ (current @ hd (fieldsFrom q cs)) # tl (fieldsFrom q cs)"
proof (induction cs arbitrary: result current q)
  case Nil
  then show ?case by (simp add: fieldsFrom_Nil)
next
  case (Cons c cs)
  then show ?case by (simp add: fieldsFrom_Cons fieldsFrom_nonempty)
qed

lemma splitLoop_noquote:
  "QUOTE \<notin> set (concat result) \<Longrightarrow> QUOTE \<notin> set current
     \<Longrightarrow> QUOTE \<notin> set (concat (splitLoop result current q cs))"
proof (induction cs arbitrary: result current q)
  case Nil
  then show ?case by simp
next
  case (Cons c cs)
  show ?case
  proof (cases "c = QUOTE")
    case True
    then show ?thesis using Cons.IH[OF Cons.prems] by simp
  next
    case nq: False
    show ?thesis
    proof (cases "c = COMMA \<and> \<not> q")
      case True
      have "QUOTE \<notin> set (concat (result @ [current]))"
        using Cons.prems by simp
      from Cons.IH[OF this, of "[]" q] True nq show ?thesis by simp
    next
      case False
      have "QUOTE \<notin> set (current @ [c])"
        using Cons.prems nq by simp
      moreover have "splitLoop result current q (c # cs) = splitLoop result (current @ [c]) q cs"
        using False nq by (cases "c = COMMA") simp_all
      ultimately show ?thesis
        using Cons.IH[OF Cons.prems(1), of "current @ [c]" q] by simp
    qed
  qed
qed

text \<open>
  Claim C5. The tokenizer splits a line at the commas outside quoted regions, keeps the
  commas inside a quote-toggled region as content and strips the quote characters: it
  computes exactly the fields of \<open>tokenizer_spec\<close>, no field contains a quote character, and
  the line \<^verbatim>\<open>a,"b,c",d\<close> gives the three fields \<^verbatim>\<open>a\<close>, \<^verbatim>\<open>b,c\<close> and \<^verbatim>\<open>d\<close>.
\<close>

theorem splitCSVLine_tokenizes:
  "splitCSVLine line = tokenizer_spec line
   \<and> QUOTE \<notin> set (concat (splitCSVLine line))
   \<and> splitCSVLine (ascii ''a,'' @ [QUOTE] @ ascii ''b,c'' @ [QUOTE] @ ascii '',d'')
       = [ascii ''a'', ascii ''b,c'', ascii ''d'']"
proof (intro conjI)
  show "splitCSVLine line = tokenizer_spec line"
    using fieldsFrom_nonempty[of False line]
    by (simp add: splitCSVLine_def splitLoop_fieldsFrom tokenizer_spec_def)
  show "QUOTE \<notin> set (concat (splitCSVLine line))"
    unfolding splitCSVLine_def by (rule splitLoop_noquote) simp_all
  show "splitCSVLine (ascii ''a,'' @ [QUOTE] @ ascii ''b,c'' @ [QUOTE] @ ascii '',d'')
       = [ascii ''a'', ascii ''b,c'', ascii ''d'']"
    by (simp add: splitCSVLine_def ascii_def)
qed

theorem splitCSVLine_tokenizes_witness:
  "tokenizer_spec (ascii ''x,'' @ [QUOTE] @ ascii ''y,z'')
     = [ascii ''x'', ascii ''y,z'']"
proof -
  have "splitCSVLine (ascii ''x,'' @ [QUOTE] @ ascii ''y,z'') = [ascii ''x'', ascii ''y,z'']"
    by (simp add: splitCSVLine_def ascii_def)
  then show ?thesis
    using splitCSVLine_tokenizes[of "ascii ''x,'' @ [QUOTE] @ ascii ''y,z''"] by simp
qed

section \<open>Proofs: CSV import\<close>

lemmas csv_eval = parseCSVText_def ascii_def removeBOM_def trim_def isWhiteSpace_def
  splitCSVLine_def isDataRow_def col_def isDigit_def makeItem_def stringOf_def dataRows_def rowsOf_def Let_def
  padStart2_def cleanAmount_def

text \<open>
  What the import does on every text: it returns exactly when every row that passes the check
  has at least three fields, and then it holds one transaction for each such row, built
  from that row, in the order of the rows.
\<close>

lemma makeItem_short: "length cols < 3 \<Longrightarrow> makeItem uid cols = Inl TypeError"
  by (auto simp: makeItem_def col_def split: option.splits)

lemma makeItem_long: "3 \<le> length cols \<Longrightarrow> \<exists>item. makeItem uid cols = Inr item"
proof -
  assume "3 \<le> length cols"
  then have "0 < length cols" "1 < length cols" "2 < length cols" by auto
  then show ?thesis by (simp add: makeItem_def col_def Let_def)
qed

lemma rowsOf_Cons:
  "rowsOf (l # ls) =
     (if trim l \<noteq> [] \<and> isDataRow (splitCSVLine (trim l))
      then splitCSVLine (trim l) # rowsOf ls else rowsOf ls)"
  by (simp add: rowsOf_def)

lemma parseRows_returns:
  "list_all (\<lambda>cols. 3 \<le> length cols) (rowsOf ls) \<Longrightarrow> \<exists>ts. parseRows uuid n acc ls = Inr ts"
proof (induction ls arbitrary: n acc)
  case Nil
  then show ?case by simp
next
  case (Cons l ls)
  show ?case
  proof (cases "trim l \<noteq> [] \<and> isDataRow (splitCSVLine (trim l))")
    case True
    with Cons.prems have "3 \<le> length (splitCSVLine (trim l))"
      and rest: "list_all (\<lambda>cols. 3 \<le> length cols) (rowsOf ls)"
      by (simp_all add: rowsOf_Cons)
    from makeItem_long[OF this(1), of "uuid n"] obtain item
      where "makeItem (uuid n) (splitCSVLine (trim l)) = Inr item" by blast
    with True Cons.IH[OF rest, of "Suc n" "acc @ [item]"] show ?thesis by simp
  next
    case False
    with Cons.prems have "list_all (\<lambda>cols. 3 \<le> length cols) (rowsOf ls)"
      by (simp add: rowsOf_Cons)
    from Cons.IH[OF this, of n acc] False show ?thesis by (auto simp: Let_def)
  qed
qed

lemma parseRows_rows:
  "parseRows uuid n acc ls = Inr ts \<Longrightarrow>
     map Inr ts = map Inr acc @ map (\<lambda>(k, cols). makeItem (uuid k) cols) (enumerate n (rowsOf ls))"
proof (induction ls arbitrary: n acc)
  case Nil
  then show ?case by (simp add: rowsOf_def)
next
  case (Cons l ls)
  show ?case
  proof (cases "trim l \<noteq> [] \<and> isDataRow (splitCSVLine (trim l))")
    case True
    with Cons.prems obtain item where item: "makeItem (uuid n) (splitCSVLine (trim l)) = Inr item"
      and r: "parseRows uuid (Suc n) (acc @ [item]) ls = Inr ts"
      by (auto split: sum.splits)
    from Cons.IH[OF r] True item show ?thesis
      by (simp add: rowsOf_Cons)
  next
    case False
    with Cons.prems have "parseRows uuid n acc ls = Inr ts"
      by (auto simp: Let_def split: if_splits)
    moreover have "rowsOf (l # ls) = rowsOf ls"
      using False by (simp add: rowsOf_Cons)
    ultimately show ?thesis
      using Cons.IH[of n acc] by simp
  qed
qed

lemma parseRows_throws:
  "\<not> list_all (\<lambda>cols. 3 \<le> length cols) (rowsOf ls) \<Longrightarrow> parseRows uuid n acc ls = Inl TypeError"
proof (induction ls arbitrary: n acc)
  case Nil
  then show ?case by (simp add: rowsOf_def)
next
  case (Cons l ls)
  show ?case
  proof (cases "trim l \<noteq> [] \<and> isDataRow (splitCSVLine (trim l))")
    case True
    show ?thesis
    proof (cases "3 \<le> length (splitCSVLine (trim l))")
      case long: True
      with True Cons.prems have rest: "\<not> list_all (\<lambda>cols. 3 \<le> length cols) (rowsOf ls)"
        by (simp add: rowsOf_Cons)
      from makeItem_long[OF long, of "uuid n"] obtain item
        where "makeItem (uuid n) (splitCSVLine (trim l)) = Inr item" by blast
      with True Cons.IH[OF rest, of "Suc n" "acc @ [item]"] show ?thesis by simp
    next
      case False
      then have "makeItem (uuid n) (splitCSVLine (trim l)) = Inl TypeError"
        by (intro makeItem_short) simp
      with True show ?thesis by simp
    qed
  next
    case False
    with Cons.prems have "\<not> list_all (\<lambda>cols. 3 \<le> length cols) (rowsOf ls)"
      by (simp add: rowsOf_Cons)
    from Cons.IH[OF this, of n acc] False show ?thesis by (auto simp: Let_def)
  qed
qed

lemma parseCSVText_returns_iff:
  "(\<exists>ts. parseCSVText uuid text = Inr ts) \<longleftrightarrow> list_all (\<lambda>cols. 3 \<le> length cols) (dataRows text)"
proof (cases "list_all (\<lambda>cols. 3 \<le> length cols) (dataRows text)")
  case True
  then show ?thesis
    using parseRows_returns[of "drop 1 (splitLines [] (removeBOM text))" uuid 0 "[]"]
    by (simp add: parseCSVText_def dataRows_def Let_def)
next
  case False
  then show ?thesis
    using parseRows_throws[of "drop 1 (splitLines [] (removeBOM text))" uuid 0 "[]"]
    by (simp add: parseCSVText_def dataRows_def Let_def)
qed

lemma parseCSVText_one_per_row_in_order:
  assumes "parseCSVText uuid text = Inr ts"
  shows "length ts = length (dataRows text)"
    and "map Inr ts = map (\<lambda>(k, cols). makeItem (uuid k) cols) (enumerate 0 (dataRows text))"
proof -
  from assms have "parseRows uuid 0 [] (drop 1 (splitLines [] (removeBOM text))) = Inr ts"
    by (simp add: parseCSVText_def Let_def)
  from parseRows_rows[OF this]
  show 2: "map Inr ts = map (\<lambda>(k, cols). makeItem (uuid k) cols) (enumerate 0 (dataRows text))"
    by (simp add: dataRows_def)
  from arg_cong[OF 2, of length] show "length ts = length (dataRows text)"
    by simp
qed

text \<open>
  Claim C1 says that the import returns a list for every text and skips every malformed
  line. It does not: a line that passes the four-digit check but has fewer than three fields
  makes \<^verbatim>\<open>cols[1].padStart\<close> (or \<^verbatim>\<open>cols[2].padStart\<close>) a call on \<^verbatim>\<open>undefined\<close>, and the
  import throws. On the two-line text \<^verbatim>\<open>Date\<close>, \<^verbatim>\<open>2025\<close> the result is the TypeError.
\<close>

theorem parseCSVText_throws_on_short_row:
  "parseCSVText sampleUUID (ascii ''Date'' @ [LF] @ ascii ''2025'') = Inl TypeError"
  by (simp add: csv_eval)

text \<open>
  Claim C4 says that the import emits one transaction for each non-empty line after the
  header whose first field is four digits. On the text below two lines qualify, the second
  with two fields only: the import throws on it and emits nothing, the first row included.
\<close>

theorem parseCSVText_emits_nothing_after_throw:
  "length (dataRows (ascii ''Date'' @ [LF] @ ascii ''2025,3,15,x,y,z,w,1200'' @ [LF]
             @ ascii ''2025,3'')) = 2
   \<and> parseCSVText sampleUUID
        (ascii ''Date'' @ [LF] @ ascii ''2025,3,15,x,y,z,w,1200'' @ [LF] @ ascii ''2025,3'')
       = Inl TypeError"
  by (simp add: csv_eval)

section \<open>Proofs: deletion\<close>

lemmas sample_eval = sampleStore_def sampleRecord_def ascii_def

text \<open>
  Claim C8. In a store whose identifiers are unique, a confirmed deletion of an identifier
  that is present leaves no record with that identifier and makes the store exactly one
  record shorter; a confirmed deletion of an absent identifier leaves the store, and so
  its size, unchanged.
\<close>

theorem deleteTransaction_size:
  assumes "distinct (map id' T)"
  shows "(i \<in> set (map id' T) \<longrightarrow>
            i \<notin> set (map id' (deleteTransaction True i T))
            \<and> Suc (length (deleteTransaction True i T)) = length T)
       \<and> (i \<notin> set (map id' T) \<longrightarrow>
            deleteTransaction True i T = T \<and> length (deleteTransaction True i T) = length T)"
  using assms
proof (induction T)
  case Nil
  then show ?case by (simp add: deleteTransaction_def)
next
  case (Cons t T)
  then show ?case by (auto simp: deleteTransaction_def)
qed

theorem deleteTransaction_size_witness:
  "distinct (map id' sampleStore)
   \<and> ascii ''b'' \<in> set (map id' sampleStore)
   \<and> ascii ''b'' \<notin> set (map id' (deleteTransaction True (ascii ''b'') sampleStore))
   \<and> Suc (length (deleteTransaction True (ascii ''b'') sampleStore)) = length sampleStore
   \<and> ascii ''z'' \<notin> set (map id' sampleStore)
   \<and> deleteTransaction True (ascii ''z'') sampleStore = sampleStore"
proof -
  have d: "distinct (map id' sampleStore)"
    by (simp add: sample_eval)
  have b: "ascii ''b'' \<in> set (map id' sampleStore)"
    by (simp add: sample_eval)
  have z: "ascii ''z'' \<notin> set (map id' sampleStore)"
    by (simp add: sample_eval)
  show ?thesis
    using d b z deleteTransaction_size[OF d, of "ascii ''b''"]
      deleteTransaction_size[OF d, of "ascii ''z''"]
    by blast
qed

text \<open>
  Claim C10. A confirmed deletion removes every record that carries the given identifier,
  keeps every record with another identifier as often as it occurred, and keeps the
  remaining records in their relative order.
\<close>

theorem deleteTransaction_frame:
  "(\<forall>t \<in> set (deleteTransaction True i T). id' t \<noteq> i)
   \<and> (\<forall>t. id' t \<noteq> i \<longrightarrow> count_list (deleteTransaction True i T) t = count_list T t)
   \<and> subseq (deleteTransaction True i T) T"
proof (intro conjI)
  show "\<forall>t \<in> set (deleteTransaction True i T). id' t \<noteq> i"
    by (simp add: deleteTransaction_def)
  show "\<forall>t. id' t \<noteq> i \<longrightarrow> count_list (deleteTransaction True i T) t = count_list T t"
    by (induction T) (auto simp: deleteTransaction_def)
  show "subseq (deleteTransaction True i T) T"
    by (simp add: deleteTransaction_def)
qed

theorem deleteTransaction_frame_witness:
  "count_list (deleteTransaction True (ascii ''a'') (sampleStore @ sampleStore))
      (sampleStore ! 2) = 2
   \<and> list_all (\<lambda>t. id' t \<noteq> ascii ''a'')
         (deleteTransaction True (ascii ''a'') (sampleStore @ sampleStore))
   \<and> subseq (deleteTransaction True (ascii ''a'') (sampleStore @ sampleStore))
        (sampleStore @ sampleStore)"
proof -
  have ne: "id' (sampleStore ! 2) \<noteq> ascii ''a''"
    by (simp add: sample_eval)
  have c: "count_list (sampleStore @ sampleStore) (sampleStore ! 2) = 2"
    by (simp add: sample_eval)
  show ?thesis
    using ne c deleteTransaction_frame[of "ascii ''a''" "sampleStore @ sampleStore"]
    unfolding list_all_iff by metis
qed

section \<open>Proofs: numbers and amounts\<close>


lemma isDigit_unat: "isDigit c \<longleftrightarrow> 48 \<le> unat c \<and> unat c \<le> 57"
  by (simp add: isDigit_def word_le_nat_alt)

lemma isDigit_not_special:
  assumes "isDigit c"
  shows "\<not> isWhiteSpace c" "c \<noteq> QUOTE" "c \<noteq> APOSTROPHE" "c \<noteq> COMMA" "c \<noteq> HYPHEN"
    "c \<noteq> PLUS" "c \<noteq> 0x78" "c \<noteq> 0x58"
  using assms unfolding isDigit_unat isWhiteSpace_def word_le_nat_alt
  by (auto simp: word_le_nat_alt)

lemma digitOf_digit: "isDigit c \<Longrightarrow> digitOf 10 c = Some (unat c - 48)"
proof -
  assume "isDigit c"
  then have r: "48 \<le> unat c" "unat c \<le> 57"
    by (simp_all add: isDigit_unat)
  then have "unat c - 48 < 10" by arith
  with r show ?thesis
    by (simp add: digitOf_def word_le_nat_alt)
qed

lemma leadingDigits_all: "list_all isDigit s \<Longrightarrow> leadingDigits 10 s = map (\<lambda>c. unat c - 48) s"
  by (induction s) (simp_all add: digitOf_digit)

lemma mathInt_decimal: "int (mathInt 10 (map (\<lambda>c. unat c - 48) s)) = decimal s"
  by (simp add: mathInt_def decimal_def foldl_map)

lemma foldl_digits_bound:
  "list_all isDigit s \<Longrightarrow>
     foldl (\<lambda>a c. a * 10 + (unat c - 48)) a s < (a + 1) * 10 ^ length s"
proof (induction s arbitrary: a)
  case Nil
  then show ?case by simp
next
  case (Cons c s)
  then have d: "unat c - 48 < 10" by (simp add: isDigit_unat) arith
  have "foldl (\<lambda>a c. a * 10 + (unat c - 48)) (a * 10 + (unat c - 48)) s
      < (a * 10 + (unat c - 48) + 1) * 10 ^ length s"
    using Cons by simp
  also have "\<dots> \<le> ((a + 1) * 10) * 10 ^ length s"
    using d by (intro mult_right_mono) auto
  also have "\<dots> = (a + 1) * 10 ^ length (c # s)"
    by (simp add: algebra_simps)
  finally show ?case by simp
qed

lemma decimal_bound: "list_all isDigit s \<Longrightarrow> 0 \<le> decimal s \<and> decimal s < 10 ^ length s"
proof -
  assume "list_all isDigit s"
  from foldl_digits_bound[OF this, of 0]
  have "foldl (\<lambda>a c. a * 10 + (unat c - 48)) 0 s < 10 ^ length s" by simp
  then have "int (foldl (\<lambda>a c. a * 10 + (unat c - 48)) 0 s) < int (10 ^ length s)"
    by (simp only: of_nat_less_iff)
  then show ?thesis by (simp add: decimal_def)
qed

lemma roundDouble_small: "m < 2 ^ 53 \<Longrightarrow> roundDouble m = m"
  by (simp add: roundDouble_def excess.simps[of m])

lemma toNumber_exact: "\<bar>i\<bar> < 2 ^ 53 \<Longrightarrow> toNumber i = Num i"
proof -
  assume a: "\<bar>i\<bar> < 2 ^ 53"
  then have "nat \<bar>i\<bar> < 2 ^ 53" by (simp add: nat_less_iff)
  then have r: "roundDouble (nat \<bar>i\<bar>) = nat \<bar>i\<bar>" by (rule roundDouble_small)
  have "nat \<bar>i\<bar> < (2::nat) ^ 1024"
    using \<open>nat \<bar>i\<bar> < 2 ^ 53\<close> by (rule less_le_trans) simp
  then show ?thesis
    unfolding toNumber_def r Let_def by (simp add: not_le[symmetric])
qed

lemma toNumber_nonNegative: "0 \<le> i \<Longrightarrow> nonNegative (toNumber i)"
  by (simp add: toNumber_def Let_def)

lemma dropWhile_ws_digit:
  "s \<noteq> [] \<Longrightarrow> \<not> isWhiteSpace (hd s) \<Longrightarrow> dropWhile isWhiteSpace s = s"
  by (cases s) simp_all

lemma trim_id:
  "s \<noteq> [] \<Longrightarrow> \<not> isWhiteSpace (hd s) \<Longrightarrow> \<not> isWhiteSpace (last s) \<Longrightarrow> trim s = s"
proof -
  assume a: "s \<noteq> []" "\<not> isWhiteSpace (hd s)" "\<not> isWhiteSpace (last s)"
  then have 1: "dropWhile isWhiteSpace s = s" by (simp add: dropWhile_ws_digit)
  have 2: "dropWhile isWhiteSpace (rev s) = rev s"
    using a by (intro dropWhile_ws_digit) (simp_all add: hd_rev)
  show ?thesis by (simp add: trim_def 1 2)
qed

lemma pow15: "(10::int) ^ 15 < 2 ^ 53"
  by simp

lemma decimal_exact:
  assumes "list_all isDigit s" "length s \<le> 15"
  shows "toNumber (decimal s) = Num (decimal s)" "toNumber (- decimal s) = Num (- decimal s)"
proof -
  have "decimal s < 10 ^ length s" "0 \<le> decimal s"
    using decimal_bound[OF assms(1)] by simp_all
  moreover have "(10::int) ^ length s \<le> 10 ^ 15"
    using assms(2) by (intro power_increasing) simp_all
  ultimately have "\<bar>decimal s\<bar> < 2 ^ 53"
    using pow15 by linarith
  then show "toNumber (decimal s) = Num (decimal s)" "toNumber (- decimal s) = Num (- decimal s)"
    by (simp_all add: toNumber_exact)
qed

lemma parseInt_body:
  assumes "s \<noteq> []" "list_all isDigit s"
  shows "(case s of a # b # _ \<Rightarrow> a = ZERO \<and> (b = 0x78 \<or> b = 0x58) | _ \<Rightarrow> False) = False"
    "leadingDigits 10 s \<noteq> []"
proof -
  show "(case s of a # b # _ \<Rightarrow> a = ZERO \<and> (b = 0x78 \<or> b = 0x58) | _ \<Rightarrow> False) = False"
    using assms(2) by (auto split: list.splits dest: isDigit_not_special(7,8))
  show "leadingDigits 10 s \<noteq> []"
    using assms by (simp add: leadingDigits_all)
qed

lemma parseInt_digits_raw:
  assumes "s \<noteq> []" "list_all isDigit s"
  shows "parseInt s = toNumber (decimal s)"
proof -
  obtain c cs where s: "s = c # cs" using assms(1) by (cases s) auto
  have c: "isDigit c" using assms(2) s by simp
  have d: "dropWhile isWhiteSpace s = s"
    using c s by (simp add: isDigit_not_special)
  have neg: "(case s of [] \<Rightarrow> False | c # _ \<Rightarrow> c = HYPHEN) = False"
    using c s by (simp add: isDigit_not_special)
  have S1: "(case s of [] \<Rightarrow> [] | c # cs \<Rightarrow> if c = PLUS \<or> c = HYPHEN then cs else s) = s"
    using c s by (simp add: isDigit_not_special)
  have Z: "leadingDigits 10 s = map (\<lambda>c. unat c - 48) s"
    by (rule leadingDigits_all[OF assms(2)])
  have nz: "map (\<lambda>c. unat c - 48) s \<noteq> []"
    using assms(1) by simp
  show ?thesis
    unfolding parseInt_def Let_def d neg S1 parseInt_body(1)[OF assms(1,2)]
    by (simp only: if_False Z nz mathInt_decimal)
qed


lemma parseInt_neg_digits:
  assumes "s \<noteq> []" "list_all isDigit s" "length s \<le> 15"
  shows "parseInt (HYPHEN # s) = Num (- decimal s)"
proof -
  have d: "dropWhile isWhiteSpace (HYPHEN # s) = HYPHEN # s"
    by (simp add: isWhiteSpace_def)
  have Z: "leadingDigits 10 s = map (\<lambda>c. unat c - 48) s"
    by (rule leadingDigits_all[OF assms(2)])
  have nz: "map (\<lambda>c. unat c - 48) s \<noteq> []"
    using assms(1) by simp
  show ?thesis
    unfolding parseInt_def Let_def d
    by (simp only: list.case simp_thms if_True if_False parseInt_body(1)[OF assms(1,2)] Z nz
        mathInt_decimal decimal_exact(2)[OF assms(2,3)])
qed

lemma cleanAmount_digits:
  assumes "s \<noteq> []" "list_all isDigit s"
  shows "cleanAmount s = s" "cleanAmount (HYPHEN # s) = HYPHEN # s"
proof -
  have f: "filter (\<lambda>c. c \<noteq> QUOTE \<and> c \<noteq> APOSTROPHE \<and> c \<noteq> COMMA) s = s"
    using assms(2) by (induction s) (simp_all add: isDigit_not_special)
  have h: "\<not> isWhiteSpace (hd s)" "\<not> isWhiteSpace (last s)"
    using assms by (simp_all add: list_all_iff isDigit_not_special)
  show "cleanAmount s = s"
    unfolding cleanAmount_def f using assms(1) h by (rule trim_id)
  have "trim (HYPHEN # s) = HYPHEN # s"
    using assms(1) h by (intro trim_id) (simp_all add: isWhiteSpace_def)
  then show "cleanAmount (HYPHEN # s) = HYPHEN # s"
    by (simp add: cleanAmount_def f)
qed

text \<open>
  Rounding and overflow. An amount field of 309 nines is beyond the range of a double and
  parses to the positive infinity; \<open>toNumber\<close> gives a finite Number exactly for the
  integers of magnitude below \<open>2 ^ 1024 - 2 ^ 970\<close>.
\<close>

lemma excess_div_less: "m div 2 ^ excess m < 2 ^ 53"
proof (induction m rule: excess.induct)
  case (1 m)
  show ?case
  proof (cases "m < 2 ^ 53")
    case True
    then show ?thesis by (simp add: excess.simps[of m])
  next
    case False
    then have "m div 2 ^ excess m = (m div 2) div 2 ^ excess (m div 2)"
      by (simp add: excess.simps[of m] div_mult2_eq)
    with 1[OF False] show ?thesis by simp
  qed
qed

lemma excess_div_ge: "2 ^ 53 \<le> m \<Longrightarrow> 2 ^ 52 \<le> m div 2 ^ excess m"
proof (induction m rule: excess.induct)
  case (1 m)
  then have nl: "\<not> m < 2 ^ 53" by simp
  have step: "m div 2 ^ excess m = (m div 2) div 2 ^ excess (m div 2)"
    using nl by (simp add: excess.simps[of m] div_mult2_eq)
  show ?case
  proof (cases "m div 2 < 2 ^ 53")
    case True
    then have "excess (m div 2) = 0" by (simp add: excess.simps[of "m div 2"])
    moreover have "2 ^ 52 \<le> m div 2" using 1(2) by simp
    ultimately show ?thesis using step by simp
  next
    case False
    then have "2 ^ 53 \<le> m div 2" by simp
    from 1(1)[OF nl this] step show ?thesis by simp
  qed
qed

lemma roundDouble_lower: "m div 2 ^ excess m * 2 ^ excess m \<le> roundDouble m"
  by (simp add: roundDouble_def Let_def)

lemma roundDouble_overflow:
  assumes "2 ^ 1024 \<le> m"
  shows "2 ^ 1024 \<le> roundDouble m"
proof -
  define e where "e = excess m"
  define q where "q = m div 2 ^ e"
  have big: "(2::nat) ^ 53 \<le> m"
    using assms by (rule order_trans[rotated]) simp
  have q: "q < 2 ^ 53" "2 ^ 52 \<le> q"
    using excess_div_less[of m] excess_div_ge[OF big] by (simp_all add: q_def e_def)
  have "m < (q + 1) * 2 ^ e"
  proof -
    have "m < 2 ^ e + m div 2 ^ e * 2 ^ e"
      by (rule dividend_less_div_times) simp
    then show ?thesis by (simp add: q_def algebra_simps)
  qed
  also have "\<dots> \<le> 2 ^ 53 * 2 ^ e"
    using q(1) by (intro mult_right_mono) simp_all
  finally have lt: "(2::nat) ^ 1024 < 2 ^ (53 + e)"
    using assms by (simp add: power_add)
  have "1024 < 53 + e"
    by (rule power_less_imp_less_exp[OF _ lt]) simp
  then have "972 \<le> e" by simp
  then have "(2::nat) ^ 972 \<le> 2 ^ e"
    by (intro power_increasing) simp_all
  then have "(2::nat) ^ 52 * 2 ^ 972 \<le> q * 2 ^ e"
    using q(2) by (intro mult_mono) simp_all
  moreover have "(2::nat) ^ 52 * 2 ^ 972 = 2 ^ 1024"
    by (simp add: power_add[symmetric])
  ultimately show ?thesis
    using roundDouble_lower[of m] by (simp add: q_def e_def)
qed

lemma toNumber_overflow: "2 ^ 1024 \<le> i \<Longrightarrow> toNumber i = Infinity False"
proof -
  assume a: "2 ^ 1024 \<le> i"
  then have "(2::nat) ^ 1024 \<le> nat \<bar>i\<bar>"
    by (simp add: le_nat_iff)
  from roundDouble_overflow[OF this] a show ?thesis
    by (simp add: toNumber_def Let_def)
qed

lemma foldl_nines:
  "foldl (\<lambda>a c. a * 10 + (unat c - 48)) a (replicate n (0x39 :: jschar)) + 1 = (a + 1) * 10 ^ n"
proof (induction n arbitrary: a)
  case 0
  then show ?case by simp
next
  case (Suc n)
  have u: "unat (0x39 :: jschar) - 48 = 9" by simp
  have "foldl (\<lambda>a c. a * 10 + (unat c - 48)) a (replicate (Suc n) (0x39 :: jschar)) + 1
      = foldl (\<lambda>a c. a * 10 + (unat c - 48)) (a * 10 + 9) (replicate n (0x39 :: jschar)) + 1"
    by (simp only: replicate_Suc foldl_Cons u)
  also have "\<dots> = (a * 10 + 9 + 1) * 10 ^ n" by (rule Suc.IH)
  also have "\<dots> = (a + 1) * 10 ^ Suc n" by (simp add: algebra_simps)
  finally show ?case .
qed

lemma decimal_nines: "decimal (replicate n 0x39) + 1 = 10 ^ n"
proof -
  have "int (foldl (\<lambda>a c. a * 10 + (unat c - 48)) 0 (replicate n (0x39 :: jschar)) + 1) = int (10 ^ n)"
    using foldl_nines[of 0 n] by simp
  then show ?thesis by (simp add: decimal_def)
qed

lemma parseAmount_overflows: "parseAmount (Some (replicate 309 0x39)) = Infinity False"
proof -
  let ?s = "replicate 309 (0x39 :: jschar)"
  have d: "list_all isDigit ?s" "?s \<noteq> []"
    by (simp_all add: list_all_iff isDigit_def)
  have "(2::int) ^ 1024 \<le> 10 ^ 309 - 1" by simp
  then have "2 ^ 1024 \<le> decimal ?s"
    using decimal_nines[of 309] by simp
  then have "parseInt ?s = Infinity False"
    using parseInt_digits_raw[OF d(2,1)] toNumber_overflow by simp
  then show ?thesis
    using d by (simp add: parseAmount_def Let_def cleanAmount_digits)
qed

lemma excess_le: "m < 2 ^ (53 + k) \<Longrightarrow> excess m \<le> k"
proof (induction k arbitrary: m)
  case 0
  then show ?case by (simp add: excess.simps[of m])
next
  case (Suc k)
  show ?case
  proof (cases "m < 2 ^ 53")
    case True
    then show ?thesis by (simp add: excess.simps[of m])
  next
    case False
    have "(2::nat) ^ (53 + Suc k) = 2 * 2 ^ (53 + k)" by (simp only: add_Suc_right power_Suc)
    with Suc.prems have "m < 2 * 2 ^ (53 + k)" by (simp only:)
    then have "m div 2 < 2 ^ (53 + k)" by linarith
    from Suc.IH[OF this] False show ?thesis by (simp add: excess.simps[of m])
  qed
qed

lemma excess_ge: "2 ^ (52 + k) \<le> m \<Longrightarrow> k \<le> excess m"
proof (induction k arbitrary: m)
  case 0
  then show ?case by simp
next
  case (Suc k)
  have "(2::nat) ^ 53 \<le> 2 ^ (52 + Suc k)" by (intro power_increasing) simp_all
  then have nl: "\<not> m < 2 ^ 53" using Suc.prems by linarith
  have "(2::nat) ^ (52 + Suc k) = 2 * 2 ^ (52 + k)" by (simp only: add_Suc_right power_Suc)
  with Suc.prems have "2 * 2 ^ (52 + k) \<le> m" by (simp only:)
  then have "2 ^ (52 + k) \<le> m div 2" by linarith
  from Suc.IH[OF this] nl show ?case by (simp add: excess.simps[of m])
qed

lemma roundDouble_cases:
  "roundDouble m = m div 2 ^ excess m * 2 ^ excess m
   \<or> roundDouble m = (m div 2 ^ excess m + 1) * 2 ^ excess m"
  by (simp add: roundDouble_def Let_def)

lemma roundDouble_upper: "roundDouble m \<le> (m div 2 ^ excess m + 1) * 2 ^ excess m"
  using roundDouble_cases[of m] by auto

lemma roundDouble_top:
  assumes lo: "2 ^ 1023 \<le> m" and hi: "m < 2 ^ 1024"
  shows "roundDouble m < 2 ^ 1024 \<longleftrightarrow> m < 2 ^ 1024 - 2 ^ 970"
proof -
  have "excess m \<le> 971" by (rule excess_le) (use hi in simp)
  moreover have "971 \<le> excess m" by (rule excess_ge) (use lo in simp)
  ultimately have e: "excess m = 971" by simp
  define q where "q = m div 2 ^ 971"
  define r where "r = m mod 2 ^ 971"
  have big: "(2::nat) ^ 53 \<le> m"
    using lo by (rule order_trans[rotated]) simp
  have q: "q < 2 ^ 53" "2 ^ 52 \<le> q"
    using excess_div_less[of m] excess_div_ge[OF big] by (simp_all add: q_def e)
  have m: "m = q * 2 ^ 971 + r" and r: "r < 2 ^ 971"
    by (simp_all add: q_def r_def)
  have rd: "roundDouble m =
      (if 2 ^ 971 < 2 * r \<or> (2 * r = 2 ^ 971 \<and> odd q) then (q + 1) * 2 ^ 971 else q * 2 ^ 971)"
    by (simp only: roundDouble_def e Let_def q_def r_def)
  show ?thesis
  proof (cases "q = 2 ^ 53 - 1")
    case True
    then have oq: "odd q" by simp
    show ?thesis
      unfolding rd using True oq m r hi by (simp split: if_splits)
  next
    case False
    with q have "q + 2 \<le> 2 ^ 53" by simp
    then have "(q + 1) * 2 ^ 971 + 2 ^ 971 \<le> (2::nat) ^ 53 * 2 ^ 971"
      by (metis add_mult_distrib mult_le_mono1 nat_mult_1 add.assoc one_add_one)
    then have up: "(q + 1) * 2 ^ 971 + 2 ^ 971 \<le> (2::nat) ^ 1024"
      by (simp add: power_add[symmetric])
    have "roundDouble m \<le> (q + 1) * 2 ^ 971"
      unfolding rd by simp
    with up have 1: "roundDouble m < 2 ^ 1024" by simp
    have "m < (q + 1) * 2 ^ 971" using m r by simp
    with up have "m + 2 ^ 971 < 2 ^ 1024" by linarith
    then have 2: "m < 2 ^ 1024 - 2 ^ 970" by simp
    from 1 2 show ?thesis by simp
  qed
qed

lemma roundDouble_finite_iff: "roundDouble m < 2 ^ 1024 \<longleftrightarrow> m < 2 ^ 1024 - 2 ^ 970"
proof -
  consider "m < 2 ^ 53" | "2 ^ 53 \<le> m" "m < 2 ^ 1023" | "2 ^ 1023 \<le> m" "m < 2 ^ 1024"
    | "2 ^ 1024 \<le> m" by linarith
  then show ?thesis
  proof cases
    case 1
    then have "roundDouble m = m" by (rule roundDouble_small)
    moreover have "m < 2 ^ 1024 - 2 ^ 970" using 1 by simp
    ultimately show ?thesis by simp
  next
    case 2
    have e: "excess m \<le> 970" by (rule excess_le) (use 2 in simp)
    have "m div 2 ^ excess m + 1 \<le> 2 ^ 53"
      using excess_div_less[of m] by simp
    moreover have "(2::nat) ^ excess m \<le> 2 ^ 970"
      using e by (intro power_increasing) simp_all
    ultimately have "(m div 2 ^ excess m + 1) * 2 ^ excess m \<le> 2 ^ 53 * 2 ^ 970"
      by (rule mult_mono) simp_all
    also have "\<dots> = (2::nat) ^ 1023" by (simp add: power_add[symmetric])
    finally have "roundDouble m \<le> 2 ^ 1023"
      using roundDouble_upper[of m] by simp
    then have "roundDouble m < 2 ^ 1024" by simp
    moreover have "m < 2 ^ 1024 - 2 ^ 970" using 2 by simp
    ultimately show ?thesis by simp
  next
    case 3
    then show ?thesis by (rule roundDouble_top)
  next
    case 4
    from roundDouble_overflow[OF this] 4 show ?thesis by simp
  qed
qed

lemma toNumber_finite_iff: "(\<exists>n. toNumber i = Num n) \<longleftrightarrow> \<bar>i\<bar> < 2 ^ 1024 - 2 ^ 970"
proof -
  have "(\<exists>n. toNumber i = Num n) \<longleftrightarrow> roundDouble (nat \<bar>i\<bar>) < 2 ^ 1024"
    by (auto simp: toNumber_def Let_def)
  also have "\<dots> \<longleftrightarrow> nat \<bar>i\<bar> < 2 ^ 1024 - 2 ^ 970"
    by (rule roundDouble_finite_iff)
  also have "\<dots> \<longleftrightarrow> \<bar>i\<bar> < 2 ^ 1024 - 2 ^ 970"
    by (simp add: nat_less_iff)
  finally show ?thesis .
qed

lemma toNumber_minus: "toNumber (- i) = jsNeg (toNumber i)"
proof -
  have "roundDouble (nat \<bar>i\<bar>) = 0" if "i = 0"
    using that by (simp add: roundDouble_small)
  then show ?thesis
    by (cases "i = 0") (auto simp: toNumber_def Let_def)
qed

lemma parseInt_readInteger:
  "parseInt str = (case readInteger str of None \<Rightarrow> NaN | Some i \<Rightarrow> toNumber i)"
  by (simp add: parseInt_def readInteger_def Let_def)

lemma trim_no_leading_blank: "dropWhile isWhiteSpace (trim s) = trim s"
proof (cases "trim s = []")
  case True
  then show ?thesis by simp
next
  case False
  define d where "d = dropWhile isWhiteSpace s"
  have "rev (dropWhile isWhiteSpace (rev d)) @ rev (takeWhile isWhiteSpace (rev d)) = d"
    by (simp only: rev_append[symmetric] takeWhile_dropWhile_id rev_rev_ident)
  then have split: "d = trim s @ rev (takeWhile isWhiteSpace (rev d))"
    by (simp add: trim_def d_def)
  have dne: "d \<noteq> []" using split False by auto
  have "hd (trim s) = hd d" using split False by (metis hd_append2)
  moreover have "\<not> isWhiteSpace (hd d)"
    using dne unfolding d_def by (rule hd_dropWhile)
  ultimately show ?thesis using False by (cases "trim s") simp_all
qed

lemma digitOf_None_10: "digitOf 10 c = None \<longleftrightarrow> \<not> isDigit c"
proof (cases "isDigit c")
  case True
  then show ?thesis by (simp add: digitOf_digit)
next
  case False
  then have "\<not> (48 \<le> unat c \<and> unat c \<le> 57)" by (simp add: isDigit_unat)
  then show ?thesis using False
    unfolding digitOf_def Let_def word_le_nat_alt by (auto split: option.splits)
qed

lemma leadingDigits_Nil_iff:
  "leadingDigits R s = [] \<longleftrightarrow> (case s of [] \<Rightarrow> True | c # _ \<Rightarrow> digitOf R c = None)"
  by (cases s) (auto split: option.splits)

lemma digitOf_None_16: "digitOf 16 c = None \<longleftrightarrow> \<not> isHexDigit c"
proof -
  define n where "n = unat c"
  have d: "digitOf 16 c =
      (if 48 \<le> n \<and> n \<le> 57 then (if n - 48 < 16 then Some (n - 48) else None)
       else if 97 \<le> n \<and> n \<le> 122 then (if n - 87 < 16 then Some (n - 87) else None)
       else if 65 \<le> n \<and> n \<le> 90 then (if n - 55 < 16 then Some (n - 55) else None)
       else None)"
    by (simp add: digitOf_def Let_def word_le_nat_alt n_def)
  have h: "isHexDigit c \<longleftrightarrow> (48 \<le> n \<and> n \<le> 57) \<or> (97 \<le> n \<and> n \<le> 102) \<or> (65 \<le> n \<and> n \<le> 70)"
    by (simp add: isHexDigit_def isDigit_def word_le_nat_alt n_def)
  consider "48 \<le> n \<and> n \<le> 57" | "97 \<le> n \<and> n \<le> 102" | "103 \<le> n \<and> n \<le> 122"
    | "65 \<le> n \<and> n \<le> 70" | "71 \<le> n \<and> n \<le> 90"
    | "n < 48 \<or> (57 < n \<and> n < 65) \<or> (90 < n \<and> n < 97) \<or> 122 < n"
    by linarith
  then show ?thesis
  proof cases
    case 1
    then have "n - 48 < 16" by linarith
    with 1 show ?thesis unfolding d h by simp
  next
    case 2
    then have "n - 87 < 16" "\<not> (48 \<le> n \<and> n \<le> 57)" "n \<le> 122" by linarith+
    with 2 show ?thesis unfolding d h by simp
  next
    case 3
    then have "\<not> n - 87 < 16" "\<not> (48 \<le> n \<and> n \<le> 57)" "97 \<le> n" "\<not> n \<le> 102"
      "\<not> n \<le> 70" by linarith+
    with 3 show ?thesis unfolding d h by simp
  next
    case 4
    then have "n - 55 < 16" "\<not> (48 \<le> n \<and> n \<le> 57)" "\<not> (97 \<le> n \<and> n \<le> 122)" "n \<le> 90"
      by linarith+
    with 4 show ?thesis unfolding d h by simp
  next
    case 5
    then have "\<not> n - 55 < 16" "\<not> (48 \<le> n \<and> n \<le> 57)" "\<not> (97 \<le> n \<and> n \<le> 122)"
      "65 \<le> n" "\<not> n \<le> 70" "\<not> 97 \<le> n" by linarith+
    with 5 show ?thesis unfolding d h by simp
  next
    case 6
    then have "\<not> (48 \<le> n \<and> n \<le> 57)" "\<not> (97 \<le> n \<and> n \<le> 122)" "\<not> (65 \<le> n \<and> n \<le> 90)"
      "\<not> (97 \<le> n \<and> n \<le> 102)" "\<not> (65 \<le> n \<and> n \<le> 70)" by linarith+
    then show ?thesis unfolding d h by simp
  qed
qed

lemma readInteger_None_iff:
  assumes "dropWhile isWhiteSpace t = t"
  shows "readInteger t = None \<longleftrightarrow> unparsable t"
proof -
  define u where "u = unsignedPart t"
  have S1: "(case t of [] \<Rightarrow> [] | c # cs \<Rightarrow> if c = PLUS \<or> c = HYPHEN then cs else t) = u"
    by (simp add: u_def unsignedPart_def)
  have r: "readInteger t = None \<longleftrightarrow>
      leadingDigits (if (case u of a # b # _ \<Rightarrow> a = ZERO \<and> (b = 0x78 \<or> b = 0x58) | _ \<Rightarrow> False)
                     then 16 else 10)
        (if (case u of a # b # _ \<Rightarrow> a = ZERO \<and> (b = 0x78 \<or> b = 0x58) | _ \<Rightarrow> False)
         then drop 2 u else u) = []"
    unfolding readInteger_def Let_def assms S1 by simp
  show ?thesis
  proof (cases u)
    case Nil
    then show ?thesis unfolding r unparsable_def u_def[symmetric] by (simp add: leadingDigits_Nil_iff)
  next
    case (Cons a v)
    show ?thesis
    proof (cases v)
      case Nil
      then show ?thesis unfolding r unparsable_def u_def[symmetric] Cons
        by (simp add: leadingDigits_Nil_iff digitOf_None_10 del: leadingDigits.simps)
    next
      case (Cons b rest)
      show ?thesis
      proof (cases "a = ZERO \<and> (b = 0x78 \<or> b = 0x58)")
        case True
        then show ?thesis
          unfolding r unparsable_def u_def[symmetric] \<open>u = a # v\<close> Cons
          by (cases rest) (simp_all add: leadingDigits_Nil_iff digitOf_None_16 del: leadingDigits.simps)
      next
        case False
        then have hex: "(a = ZERO \<and> (b = 0x78 \<or> b = 0x58)) = False" by simp
        show ?thesis
          unfolding r unparsable_def u_def[symmetric] \<open>u = a # v\<close> Cons list.case hex if_False
          by (simp add: leadingDigits_Nil_iff digitOf_None_10 del: leadingDigits.simps)
      qed
    qed
  qed
qed

lemma readInteger_sign:
  assumes "dropWhile isWhiteSpace t = t" "readInteger t = Some i"
  shows "if beginsWithMinus t then i \<le> 0 else 0 \<le> i"
  using assms(2) unfolding readInteger_def Let_def assms(1) beginsWithMinus_def
  by (auto split: if_splits)

lemma readInteger_digits:
  assumes "d \<noteq> []" "list_all isDigit d"
  shows "readInteger d = Some (decimal d)" "readInteger (HYPHEN # d) = Some (- decimal d)"
proof -
  obtain c cs where s: "d = c # cs" using assms(1) by (cases d) auto
  have c: "isDigit c" using assms(2) s by simp
  have dw: "dropWhile isWhiteSpace d = d"
    using c s by (simp add: isDigit_not_special)
  have neg: "(case d of [] \<Rightarrow> False | c # _ \<Rightarrow> c = HYPHEN) = False"
    using c s by (simp add: isDigit_not_special)
  have S1: "(case d of [] \<Rightarrow> [] | c # cs \<Rightarrow> if c = PLUS \<or> c = HYPHEN then cs else d) = d"
    using c s by (simp add: isDigit_not_special)
  have Z: "leadingDigits 10 d = map (\<lambda>c. unat c - 48) d"
    by (rule leadingDigits_all[OF assms(2)])
  have nz: "map (\<lambda>c. unat c - 48) d \<noteq> []"
    using assms(1) by simp
  show "readInteger d = Some (decimal d)"
    unfolding readInteger_def Let_def dw neg S1 parseInt_body(1)[OF assms(1,2)]
    by (simp only: if_False Z nz mathInt_decimal)
  have dh: "dropWhile isWhiteSpace (HYPHEN # d) = HYPHEN # d"
    by (simp add: isWhiteSpace_def)
  show "readInteger (HYPHEN # d) = Some (- decimal d)"
    unfolding readInteger_def Let_def dh
    by (simp only: list.case simp_thms if_True if_False parseInt_body(1)[OF assms(1,2)] Z nz
        mathInt_decimal)
qed

lemma cleanAmount_no_leading_blank: "dropWhile isWhiteSpace (cleanAmount s) = cleanAmount s"
  unfolding cleanAmount_def by (rule trim_no_leading_blank)

lemma parseAmount_readInteger:
  "parseAmount (Some s) = (case readInteger (cleanAmount s) of None \<Rightarrow> Num 0 | Some i \<Rightarrow> toNumber i)"
proof (cases "s = []")
  case True
  then show ?thesis
    by (simp add: parseAmount_def cleanAmount_def trim_def readInteger_def)
next
  case False
  show ?thesis
  proof (cases "readInteger (cleanAmount s)")
    case None
    then show ?thesis using False
      by (simp add: parseAmount_def Let_def parseInt_readInteger)
  next
    case (Some i)
    have "toNumber i \<noteq> NaN" by (simp add: toNumber_def Let_def)
    then have "\<not> truthy (toNumber i) \<Longrightarrow> Num 0 = toNumber i"
      by (cases "toNumber i") auto
    then show ?thesis using False Some
      by (auto simp: parseAmount_def Let_def parseInt_readInteger)
  qed
qed

lemma pow308: "(10::int) ^ 308 < 2 ^ 1024 - 2 ^ 970"
  by simp

lemma decimal_in_range:
  assumes "list_all isDigit d" "length d \<le> 308"
  shows "\<bar>decimal d\<bar> < 2 ^ 1024 - 2 ^ 970" "\<bar>- decimal d\<bar> < 2 ^ 1024 - 2 ^ 970"
proof -
  have "decimal d < 10 ^ length d" "0 \<le> decimal d"
    using decimal_bound[OF assms(1)] by simp_all
  moreover have "(10::int) ^ length d \<le> 10 ^ 308"
    using assms(2) by (intro power_increasing) simp_all
  ultimately show "\<bar>decimal d\<bar> < 2 ^ 1024 - 2 ^ 970" "\<bar>- decimal d\<bar> < 2 ^ 1024 - 2 ^ 970"
    using pow308 by linarith+
qed

text \<open>
  Claim C3, amended. For every field, present or not, \<^verbatim>\<open>parseAmount\<close> returns a Number
  that is never NaN and never fractional, and that is 0 when the field is missing, empty or
  unparsable. It is non-negative unless the cleaned field begins with a minus sign, and
  then it is zero or negative. It is finite unless the integer read from the cleaned field
  has a magnitude of at least \<open>2 ^ 1024 - 2 ^ 970\<close>; so it is finite for every cleaned
  field of at most 308 decimal digits, with or without a minus sign in front. A cleaned
  field of one to fifteen decimal digits gives exactly that integer, and with a minus sign
  in front its negative.
\<close>

theorem parseAmount_integer_or_zero:
  "parseAmount f \<noteq> NaN
   \<and> (f = None \<or> f = Some [] \<longrightarrow> parseAmount f = Num 0)
   \<and> (\<forall>s. f = Some s \<and> unparsable (cleanAmount s) \<longrightarrow> parseAmount f = Num 0)
   \<and> ((\<forall>s. f = Some s \<longrightarrow> \<not> beginsWithMinus (cleanAmount s)) \<longrightarrow> nonNegative (parseAmount f))
   \<and> (\<forall>s. f = Some s \<and> beginsWithMinus (cleanAmount s) \<longrightarrow> nonNegative (jsNeg (parseAmount f)))
   \<and> ((\<forall>s i. f = Some s \<and> readInteger (cleanAmount s) = Some i \<longrightarrow> \<bar>i\<bar> < 2 ^ 1024 - 2 ^ 970)
        \<longleftrightarrow> (\<exists>n. parseAmount f = Num n))
   \<and> (\<forall>s d. f = Some s \<and> (cleanAmount s = d \<or> cleanAmount s = HYPHEN # d)
          \<and> list_all isDigit d \<and> length d \<le> 308 \<longrightarrow> (\<exists>n. parseAmount f = Num n))
   \<and> (\<forall>s. f = Some s \<and> cleanAmount s \<noteq> [] \<and> list_all isDigit (cleanAmount s)
          \<and> length (cleanAmount s) \<le> 15 \<longrightarrow> parseAmount f = Num (decimal (cleanAmount s)))
   \<and> (\<forall>s d. f = Some s \<and> cleanAmount s = HYPHEN # d \<and> d \<noteq> [] \<and> list_all isDigit d
          \<and> length d \<le> 15 \<longrightarrow> parseAmount f = Num (- decimal d))"
proof -
  note nb = cleanAmount_no_leading_blank
  have 1: "parseAmount f \<noteq> NaN"
    by (cases f) (auto simp: parseAmount_def Let_def)
  have 2: "parseAmount f = Num 0" if "f = None \<or> f = Some []"
    using that by (auto simp: parseAmount_def)
  have 3: "parseAmount f = Num 0" if "f = Some s \<and> unparsable (cleanAmount s)" for s
    using that readInteger_None_iff[OF nb, of s] by (simp add: parseAmount_readInteger)
  have 4: "nonNegative (parseAmount f)" if h: "\<forall>s. f = Some s \<longrightarrow> \<not> beginsWithMinus (cleanAmount s)"
  proof (cases f)
    case None
    then show ?thesis by (simp add: parseAmount_def)
  next
    case (Some s)
    with h have nm: "\<not> beginsWithMinus (cleanAmount s)" by simp
    show ?thesis
    proof (cases "readInteger (cleanAmount s)")
      case None
      then show ?thesis using Some by (simp add: parseAmount_readInteger)
    next
      case (Some i)
      from readInteger_sign[OF nb Some] nm have "0 \<le> i" by simp
      then show ?thesis using \<open>f = Some s\<close> Some
        by (simp add: parseAmount_readInteger toNumber_nonNegative)
    qed
  qed
  have 5: "nonNegative (jsNeg (parseAmount f))" if h: "f = Some s \<and> beginsWithMinus (cleanAmount s)" for s
  proof (cases "readInteger (cleanAmount s)")
    case None
    then show ?thesis using h by (simp add: parseAmount_readInteger)
  next
    case (Some i)
    from readInteger_sign[OF nb Some] h have "0 \<le> - i" by simp
    then have "nonNegative (toNumber (- i))" by (rule toNumber_nonNegative)
    then show ?thesis using h Some
      by (simp add: parseAmount_readInteger toNumber_minus)
  qed
  have 6: "(\<forall>s i. f = Some s \<and> readInteger (cleanAmount s) = Some i \<longrightarrow> \<bar>i\<bar> < 2 ^ 1024 - 2 ^ 970)
        \<longleftrightarrow> (\<exists>n. parseAmount f = Num n)"
  proof (cases f)
    case None
    then show ?thesis by (simp add: parseAmount_def)
  next
    case (Some s)
    show ?thesis
    proof (cases "readInteger (cleanAmount s)")
      case None
      then show ?thesis using Some by (simp add: parseAmount_readInteger)
    next
      case i: (Some i)
      show ?thesis
        using Some i toNumber_finite_iff[of i] by (simp add: parseAmount_readInteger)
    qed
  qed
  have 7: "\<exists>n. parseAmount f = Num n"
    if h: "f = Some s \<and> (cleanAmount s = d \<or> cleanAmount s = HYPHEN # d)
          \<and> list_all isDigit d \<and> length d \<le> 308" for s d
  proof (cases "d = []")
    case True
    with h have "readInteger (cleanAmount s) = None"
      by (auto simp: readInteger_def isWhiteSpace_def)
    with h show ?thesis by (simp add: parseAmount_readInteger)
  next
    case False
    from h have dg: "list_all isDigit d" and len: "length d \<le> 308" by simp_all
    note ri = readInteger_digits[OF False dg]
    note rg = decimal_in_range[OF dg len]
    from h consider "cleanAmount s = d" | "cleanAmount s = HYPHEN # d" by blast
    then show ?thesis
    proof cases
      case 1
      with h ri(1) toNumber_finite_iff[of "decimal d"] rg(1) show ?thesis
        by (simp add: parseAmount_readInteger)
    next
      case 2
      with h ri(2) toNumber_finite_iff[of "- decimal d"] rg(2) show ?thesis
        by (simp add: parseAmount_readInteger)
    qed
  qed
  have 8: "parseAmount f = Num (decimal (cleanAmount s))"
    if h: "f = Some s \<and> cleanAmount s \<noteq> [] \<and> list_all isDigit (cleanAmount s)
          \<and> length (cleanAmount s) \<le> 15" for s
    using h readInteger_digits(1)[of "cleanAmount s"] decimal_exact(1)[of "cleanAmount s"]
    by (simp add: parseAmount_readInteger)
  have 9: "parseAmount f = Num (- decimal d)"
    if h: "f = Some s \<and> cleanAmount s = HYPHEN # d \<and> d \<noteq> [] \<and> list_all isDigit d
          \<and> length d \<le> 15" for s d
    using h readInteger_digits(2)[of d] decimal_exact(2)[of d]
    by (simp add: parseAmount_readInteger)
  show ?thesis
    using 1 2 3 4 5 6 7 8 9 by blast
qed

lemmas num_eval = parseAmount_def cleanAmount_def parseInt_def trim_def isWhiteSpace_def
  digitOf_def mathInt_def toNumber_def roundDouble_def excess.simps Let_def ascii_def

text \<open>
  Claim C3 as stated fails: the field \<^verbatim>\<open>-500\<close> parses to the negative integer -500.
\<close>

theorem parseAmount_negative_counterexample:
  "parseAmount (Some (ascii ''-500'')) = Num (- 500)
   \<and> \<not> nonNegative (parseAmount (Some (ascii ''-500'')))"
  by (simp add: num_eval)

theorem parseAmount_integer_or_zero_witness:
  "cleanAmount ([QUOTE] @ ascii ''1,200'' @ [QUOTE]) = ascii ''1200''
   \<and> parseAmount (Some ([QUOTE] @ ascii ''1,200'' @ [QUOTE])) = Num 1200
   \<and> nonNegative (parseAmount (Some ([QUOTE] @ ascii ''1,200'' @ [QUOTE])))
   \<and> unparsable (cleanAmount (ascii ''abc''))
   \<and> parseAmount (Some (ascii ''abc'')) = Num 0
   \<and> beginsWithMinus (cleanAmount (ascii ''-500''))
   \<and> nonNegative (jsNeg (parseAmount (Some (ascii ''-500''))))"
proof -
  have c: "cleanAmount ([QUOTE] @ ascii ''1,200'' @ [QUOTE]) = ascii ''1200''"
    by (simp add: cleanAmount_def trim_def isWhiteSpace_def ascii_def)
  have d: "list_all isDigit (ascii ''1200'')" "decimal (ascii ''1200'') = 1200"
    "\<not> beginsWithMinus (ascii ''1200'')"
    by (simp_all add: ascii_def isDigit_def decimal_def beginsWithMinus_def)
  have u: "unparsable (cleanAmount (ascii ''abc''))"
    by (simp add: cleanAmount_def trim_def isWhiteSpace_def ascii_def unparsable_def
        unsignedPart_def isDigit_def)
  have m: "beginsWithMinus (cleanAmount (ascii ''-500''))"
    by (simp add: cleanAmount_def trim_def isWhiteSpace_def ascii_def beginsWithMinus_def)
  show ?thesis
    using c d u m
      parseAmount_integer_or_zero[of "Some ([QUOTE] @ ascii ''1,200'' @ [QUOTE])"]
      parseAmount_integer_or_zero[of "Some (ascii ''abc'')"]
      parseAmount_integer_or_zero[of "Some (ascii ''-500'')"]
    by (simp add: ascii_def)
qed

section \<open>Proofs: dates\<close>









lemma splitOn_no_sep: "sep \<notin> set xs \<Longrightarrow> splitOn sep cur xs = [cur @ xs]"
  by (induction xs arbitrary: cur) auto

lemma splitOn_sep:
  "sep \<notin> set xs \<Longrightarrow> splitOn sep cur (xs @ sep # rest) = (cur @ xs) # splitOn sep [] rest"
  by (induction xs arbitrary: cur) auto








section \<open>Proofs: month totals\<close>

lemma jsAdd_nonNegative: "nonNegative x \<Longrightarrow> nonNegative y \<Longrightarrow> nonNegative (jsAdd x y)"
  by (cases x; cases y) (simp_all add: toNumber_nonNegative)

lemma foldl_nonNegative:
  "nonNegative acc \<Longrightarrow> list_all (\<lambda>t. nonNegative (amount t)) ts
     \<Longrightarrow> nonNegative (foldl (\<lambda>sum t. jsAdd sum (amount t)) acc ts)"
  by (induction ts arbitrary: acc) (simp_all add: jsAdd_nonNegative)

lemma sumAmounts_nonNegative:
  "list_all (\<lambda>t. nonNegative (amount t)) ts \<Longrightarrow> nonNegative (sumAmounts ts)"
  unfolding sumAmounts_def by (rule foldl_nonNegative) simp_all

lemma list_all_filter: "list_all P xs \<Longrightarrow> list_all P (filter Q xs)"
  by (induction xs) simp_all

lemma jsEq_refl: "x \<noteq> NaN \<Longrightarrow> jsEq x x"
  by (cases x) simp_all

text \<open>
  Claim C6, amended. For every store and month prefix, the balance is computed as income
  minus expense, and compares equal to that difference unless the difference is NaN (an
  infinite income against an infinite expense); income and expense are non-negative
  whenever every amount in the store is non-negative. Amounts can be negative, and then
  the totals can be too.
\<close>

theorem month_totals:
  "balance T M = jsSub (income T M) (expense T M)
   \<and> (balance T M \<noteq> NaN \<longrightarrow> jsEq (jsSub (income T M) (expense T M)) (balance T M))
   \<and> (list_all (\<lambda>t. nonNegative (amount t)) T \<longrightarrow>
        nonNegative (income T M) \<and> nonNegative (expense T M))"
proof -
  have b: "balance T M = jsSub (income T M) (expense T M)"
    by (simp add: balance_def income_def expense_def renderDashboard_def Let_def jsSub_def
        toNumber_def roundDouble_def excess.simps[of 0])
  have n: "nonNegative (income T M) \<and> nonNegative (expense T M)"
    if "list_all (\<lambda>t. nonNegative (amount t)) T"
    using that
    by (simp add: income_def expense_def renderDashboard_def Let_def currentMonthData_def
        sumAmounts_nonNegative list_all_filter)
  show ?thesis
    using b n jsEq_refl by simp
qed

lemmas totals_eval = income_def expense_def balance_def renderDashboard_def Let_def
  currentMonthData_def sumAmounts_def sampleRecord_def ascii_def INCOME_def EXPENSE_def
  jsSub_def toNumber_def roundDouble_def excess.simps

text \<open>
  Claim C6 as stated fails: one income record with the amount -500 gives a negative income
  total for its month.
\<close>

theorem income_negative_counterexample:
  "income [sampleRecord (ascii ''a'') (ascii ''2025-03-15'') INCOME (ascii ''pay'') (- 500)]
      (ascii ''2025-03'') = Num (- 500)
   \<and> \<not> nonNegative
        (income [sampleRecord (ascii ''a'') (ascii ''2025-03-15'') INCOME (ascii ''pay'') (- 500)]
           (ascii ''2025-03''))"
  by (simp add: totals_eval)

theorem month_totals_witness:
  "list_all (\<lambda>t. nonNegative (amount t)) sampleMonth
   \<and> income sampleMonth (ascii ''2025-03'') = Num 300000
   \<and> expense sampleMonth (ascii ''2025-03'') = Num 1200
   \<and> balance sampleMonth (ascii ''2025-03'') = Num 298800
   \<and> nonNegative (income sampleMonth (ascii ''2025-03''))
   \<and> nonNegative (expense sampleMonth (ascii ''2025-03''))
   \<and> jsEq (jsSub (income sampleMonth (ascii ''2025-03'')) (expense sampleMonth (ascii ''2025-03'')))
        (balance sampleMonth (ascii ''2025-03''))"
proof -
  have a: "list_all (\<lambda>t. nonNegative (amount t)) sampleMonth"
    by (simp add: sampleMonth_def sampleRecord_def)
  have i: "income sampleMonth (ascii ''2025-03'') = Num 300000"
    and e: "expense sampleMonth (ascii ''2025-03'') = Num 1200"
    by (simp_all add: sampleMonth_def totals_eval)
  from a i e month_totals[of sampleMonth "ascii ''2025-03''"] show ?thesis
    by (simp add: jsSub_def toNumber_def roundDouble_def excess.simps Let_def)
qed

section \<open>Proofs: category totals and day detail\<close>

lemmas chart_eval = categoryTotals_def renderCharts_def addToTotals_def propertyKey_def
  stringOf_def inheritedMethods_def ownEntries_def isDigit_def

text \<open>
  Claim C7 says that the category totals of a month sum to the month's expense total. One
  expense record of 100 whose category is \<^verbatim>\<open>constructor\<close> gives an expense total of 100,
  but the totals object holds a string under that key, not the number 100: the first read
  of \<^verbatim>\<open>totals['constructor']\<close> finds the inherited constructor function, which is truthy,
  and adding the amount to it concatenates.
\<close>

theorem categoryTotals_inherited_name:
  "categoryTotals
     [sampleRecord (ascii ''a'') (ascii ''2025-03-15'') EXPENSE (ascii ''constructor'') 100]
     (ascii ''2025-03'') = \<lparr>labels = [ascii ''constructor''], chartData = [Text]\<rparr>
   \<and> sumValues (chartData (categoryTotals
        [sampleRecord (ascii ''a'') (ascii ''2025-03-15'') EXPENSE (ascii ''constructor'') 100]
        (ascii ''2025-03''))) = None
   \<and> expense
        [sampleRecord (ascii ''a'') (ascii ''2025-03-15'') EXPENSE (ascii ''constructor'') 100]
        (ascii ''2025-03'') = Num 100"
  by (simp add: chart_eval totals_eval)

lemmas day_eval = openDayDetail_def dayData_def dateStr_def numberToString_def digits.simps
  padStart2_def sortResult_def consistentComparator_def sortCompare_def dayCompare_def
  sample_eval EXPENSE_def INCOME_def jsSub_def toNumber_def roundDouble_def excess.simps Let_def

text \<open>
  Claim C9 says that the day list comes out with the amounts descending within each type.
  With a third kind of record on the day the comparator is not consistent (an expense
  record and a transfer record each sort after the other), so the order is left to the
  implementation: the day's records in store order, expense 100, transfer 5, expense 200,
  is a result the function may display (a run-detecting merge sort leaves it as it is),
  and its two expense records ascend.
\<close>

theorem openDayDetail_third_kind:
  "openDayDetail sampleStore 2025 2 15 sampleStore
   \<and> \<not> consistentComparator dayCompare (dayData sampleStore 2025 2 15)
   \<and> \<not> amountsDescending sampleStore"
  by (simp add: day_eval)

theorem openDayDetail_third_kind_witness:
  "dayData sampleStore 2025 2 15 = sampleStore
   \<and> openDayDetail sampleStore 2025 2 15 sampleStore
   \<and> \<not> amountsDescending sampleStore"
proof -
  have "dayData sampleStore 2025 2 15 = sampleStore"
    by (simp add: dayData_def dateStr_def numberToString_def digits.simps padStart2_def
        sample_eval)
  then show ?thesis
    using openDayDetail_third_kind by simp
qed

section \<open>Proofs: day order and category sums on ordinary data\<close>

text \<open>
  On a day whose records are all plain the comparator is consistent, so the day list is the
  stable sort: a permutation of the day's records with the income records first and the
  amounts descending within each type. For a month whose expense records have ordinary
  category keys and finite amounts of magnitude below \<open>2 ^ 53\<close> in total, the category totals
  are numbers and sum to the month's expense.
\<close>

lemma INCOME_neq_EXPENSE: "INCOME \<noteq> EXPENSE"
  by (simp add: INCOME_def EXPENSE_def)

lemma roundDouble_pos: "0 < m \<Longrightarrow> 0 < roundDouble m"
proof (cases "m < 2 ^ 53")
  case True
  assume "0 < m"
  with True show ?thesis by (simp add: roundDouble_small)
next
  case False
  then have "2 ^ 53 \<le> m" by simp
  from excess_div_ge[OF this] have "0 < m div 2 ^ excess m * 2 ^ excess m"
    by simp
  with roundDouble_lower[of m] show ?thesis by linarith
qed

lemma sortCompare_toNumber:
  "(case toNumber i of NaN \<Rightarrow> 0 | Infinity neg \<Rightarrow> (if neg then - 1 else 1) | Num n \<Rightarrow> sgn n) = sgn i"
proof -
  consider "i = 0" | "0 < i" | "i < 0" by linarith
  then show ?thesis
  proof cases
    case 1
    then show ?thesis by (simp add: toNumber_def roundDouble_small Let_def)
  next
    case 2
    then have "0 < roundDouble (nat \<bar>i\<bar>)" by (intro roundDouble_pos) simp
    with 2 show ?thesis by (simp add: toNumber_def Let_def)
  next
    case 3
    then have "0 < roundDouble (nat \<bar>i\<bar>)" by (intro roundDouble_pos) simp
    with 3 show ?thesis by (simp add: toNumber_def Let_def)
  qed
qed

lemma dayCompare_plain:
  assumes "plainRecord a" "plainRecord b"
  shows "sortCompare dayCompare a b =
           (if rank a < rank b then - 1 else if rank b < rank a then 1 else sgn (amt b - amt a))"
    and "dayCompare a b \<noteq> NaN"
proof -
  from assms obtain x y where xy: "amount a = Num x" "amount b = Num y"
    by (auto simp: plainRecord_def split: jsnum.splits)
  have k: "type a = Some INCOME \<or> type a = Some EXPENSE" "type b = Some INCOME \<or> type b = Some EXPENSE"
    using assms by (simp_all add: plainRecord_def)
  have same: "sortCompare dayCompare a b = sgn (y - x)" if "type a = type b"
    using that sortCompare_toNumber[of "y - x"]
    by (simp add: sortCompare_def dayCompare_def jsSub_def xy)
  show "sortCompare dayCompare a b =
           (if rank a < rank b then - 1 else if rank b < rank a then 1 else sgn (amt b - amt a))"
  proof (cases "type a = type b")
    case True
    then show ?thesis using same by (simp add: rank_def amt_def xy)
  next
    case False
    then show ?thesis using k INCOME_neq_EXPENSE
      by (auto simp: rank_def sortCompare_def dayCompare_def)
  qed
  show "dayCompare a b \<noteq> NaN"
  proof (cases "type a = type b")
    case True
    have "toNumber (y - x) \<noteq> NaN" by (simp add: toNumber_def Let_def)
    then show ?thesis using True by (simp add: dayCompare_def jsSub_def xy)
  next
    case False
    then show ?thesis by (simp add: dayCompare_def)
  qed
qed

lemma dayCompare_le:
  assumes "plainRecord a" "plainRecord b"
  shows "sortCompare dayCompare a b \<le> 0 \<longleftrightarrow> rank a < rank b \<or> (rank a = rank b \<and> amt b \<le> amt a)"
    and "sortCompare dayCompare a b < 0 \<longleftrightarrow> rank a < rank b \<or> (rank a = rank b \<and> amt b < amt a)"
    and "sortCompare dayCompare a b = 0 \<longleftrightarrow> rank a = rank b \<and> amt b = amt a"
    and "0 < sortCompare dayCompare a b \<longleftrightarrow> rank b < rank a \<or> (rank a = rank b \<and> amt a < amt b)"
  unfolding dayCompare_plain(1)[OF assms] by (auto simp: sgn_if)

lemma dayCompare_consistent:
  assumes "list_all plainRecord xs"
  shows "consistentComparator dayCompare xs"
proof -
  have p: "\<And>a. a \<in> set xs \<Longrightarrow> plainRecord a"
    using assms by (simp add: list_all_iff)
  have 1: "\<forall>a\<in>set xs. \<forall>b\<in>set xs. dayCompare a b \<noteq> NaN"
    using p dayCompare_plain(2) by blast
  have 2: "\<forall>a\<in>set xs. sortCompare dayCompare a a = 0"
    using p dayCompare_le(3) by blast
  have 3: "\<forall>a\<in>set xs. \<forall>b\<in>set xs.
      sortCompare dayCompare a b = 0 \<longrightarrow> sortCompare dayCompare b a = 0"
    using p dayCompare_le(3) by metis
  have 4: "\<forall>a\<in>set xs. \<forall>b\<in>set xs. \<forall>c\<in>set xs.
      (sortCompare dayCompare a b = 0 \<and> sortCompare dayCompare b c = 0
         \<longrightarrow> sortCompare dayCompare a c = 0)
      \<and> (sortCompare dayCompare a b < 0 \<and> sortCompare dayCompare b c < 0
         \<longrightarrow> sortCompare dayCompare a c < 0)
      \<and> (sortCompare dayCompare a b > 0 \<and> sortCompare dayCompare b c > 0
         \<longrightarrow> sortCompare dayCompare a c > 0)"
  proof (intro ballI)
    fix a b c assume "a \<in> set xs" "b \<in> set xs" "c \<in> set xs"
    then have pa: "plainRecord a" and pb: "plainRecord b" and pc: "plainRecord c"
      using p by simp_all
    show "(sortCompare dayCompare a b = 0 \<and> sortCompare dayCompare b c = 0
         \<longrightarrow> sortCompare dayCompare a c = 0)
      \<and> (sortCompare dayCompare a b < 0 \<and> sortCompare dayCompare b c < 0
         \<longrightarrow> sortCompare dayCompare a c < 0)
      \<and> (sortCompare dayCompare a b > 0 \<and> sortCompare dayCompare b c > 0
         \<longrightarrow> sortCompare dayCompare a c > 0)"
      unfolding dayCompare_le[OF pa pb] dayCompare_le[OF pb pc] dayCompare_le[OF pa pc]
      by auto
  qed
  show ?thesis
    unfolding consistentComparator_def list_all_iff using 1 2 3 4 by blast
qed

lemma set_insertSorted: "set (insertSorted cmp x ys) = insert x (set ys)"
  by (induction ys) auto

lemma mset_insertSorted: "mset (insertSorted cmp x ys) = add_mset x (mset ys)"
  by (induction ys) auto

lemma mset_stableSort: "mset (stableSort cmp xs) = mset xs"
  unfolding stableSort_def by (induction xs) (simp_all add: mset_insertSorted)

lemma insertSorted_sorted:
  assumes "plainRecord x" "list_all plainRecord ys" "sorted_wrt before ys"
  shows "sorted_wrt before (insertSorted dayCompare x ys)"
  using assms(2,3)
proof (induction ys)
  case Nil
  then show ?case by simp
next
  case (Cons y ys)
  have py: "plainRecord y" and pys: "\<And>z. z \<in> set ys \<Longrightarrow> plainRecord z"
    using Cons.prems(1) by (simp_all add: list_all_iff)
  have yz: "\<And>z. z \<in> set ys \<Longrightarrow> before y z"
    using Cons.prems(2) by simp
  show ?case
  proof (cases "before x y")
    case True
    have "before x z" if "z \<in> set ys" for z
      using True yz[OF that]
      unfolding dayCompare_le(1)[OF assms(1) py] dayCompare_le(1)[OF py pys[OF that]]
        dayCompare_le(1)[OF assms(1) pys[OF that]]
      by auto
    with True Cons.prems(2) show ?thesis by auto
  next
    case False
    then have "before y x"
      unfolding dayCompare_le(1)[OF assms(1) py] dayCompare_le(1)[OF py assms(1)] by auto
    moreover have "sorted_wrt before (insertSorted dayCompare x ys)"
      using Cons by simp
    ultimately show ?thesis
      using False yz by (auto simp: set_insertSorted)
  qed
qed

lemma stableSort_sorted:
  "list_all plainRecord xs \<Longrightarrow>
     sorted_wrt before (stableSort dayCompare xs) \<and> list_all plainRecord (stableSort dayCompare xs)"
proof (induction xs)
  case Nil
  then show ?case by (simp add: stableSort_def)
next
  case (Cons x xs)
  then have ih: "sorted_wrt before (stableSort dayCompare xs)"
      "list_all plainRecord (stableSort dayCompare xs)" and px: "plainRecord x"
    by simp_all
  have "stableSort dayCompare (x # xs) = insertSorted dayCompare x (stableSort dayCompare xs)"
    by (simp add: stableSort_def)
  then show ?case
    using insertSorted_sorted[OF px ih(2,1)] ih(2) px
    by (simp add: list_all_iff set_insertSorted)
qed

lemma sorted_day_order:
  "list_all plainRecord ys \<Longrightarrow> sorted_wrt before ys \<Longrightarrow> incomeFirst ys \<and> amountsDescending ys"
proof (induction ys)
  case Nil
  then show ?case by simp
next
  case (Cons t ts)
  have pt: "plainRecord t" and pts: "\<And>u. u \<in> set ts \<Longrightarrow> plainRecord u"
    using Cons.prems(1) by (simp_all add: list_all_iff)
  have tu: "\<And>u. u \<in> set ts \<Longrightarrow> rank t < rank u \<or> (rank t = rank u \<and> amt u \<le> amt t)"
    using Cons.prems(2) dayCompare_le(1)[OF pt pts] by simp
  have inc: "type t = Some INCOME \<or> list_all (\<lambda>u. type u \<noteq> Some INCOME) ts"
  proof (cases "type t = Some INCOME")
    case True
    then show ?thesis by simp
  next
    case False
    have "type u \<noteq> Some INCOME" if "u \<in> set ts" for u
      using tu[OF that] False by (simp add: rank_def split: if_splits)
    then show ?thesis by (simp add: list_all_iff)
  qed
  have desc: "nonNegative (jsSub (amount t) (amount u))"
    if u: "u \<in> set ts" and ty: "type u = type t" for u
  proof -
    have pu: "plainRecord u" using pts u by simp
    obtain x y where xy: "amount t = Num x" "amount u = Num y"
      using pt pu by (auto simp: plainRecord_def split: jsnum.splits)
    have "rank t = rank u" using ty by (simp add: rank_def)
    with tu[OF u] have "y \<le> x" by (simp add: amt_def xy)
    then show ?thesis by (simp add: jsSub_def xy toNumber_nonNegative)
  qed
  show ?case
    using Cons inc desc by (simp add: list_all_iff)
qed

lemma openDayDetail_plain_days:
  assumes "list_all plainRecord (dayData T y m d)" "openDayDetail T y m d ys"
  shows "mset ys = mset (dayData T y m d)" "incomeFirst ys" "amountsDescending ys"
proof -
  from assms(2) dayCompare_consistent[OF assms(1)]
  have ys: "ys = stableSort dayCompare (dayData T y m d)"
    by (simp add: openDayDetail_def sortResult_def)
  from assms(2) show "mset ys = mset (dayData T y m d)"
    by (simp add: openDayDetail_def sortResult_def)
  from stableSort_sorted[OF assms(1)] sorted_day_order ys
  show "incomeFirst ys" "amountsDescending ys" by simp_all
qed

lemma isFinite_conv: "isFinite v \<longleftrightarrow> (\<exists>n. v = NumberVal (Num n))"
  by (cases v rule: isFinite.cases) simp_all

lemma setOwn_absent: "map_of tot k = None \<Longrightarrow> setOwn k v tot = tot @ [(k, v)]"
  by (induction tot) (auto split: if_splits)

lemma setOwn_present:
  "map_of tot k = Some old \<Longrightarrow>
     (\<Sum>p\<leftarrow>setOwn k new tot. numberOf (snd p)) = (\<Sum>p\<leftarrow>tot. numberOf (snd p)) - numberOf old + numberOf new
     \<and> (\<Sum>p\<leftarrow>setOwn k new tot. \<bar>numberOf (snd p)\<bar>)
         = (\<Sum>p\<leftarrow>tot. \<bar>numberOf (snd p)\<bar>) - \<bar>numberOf old\<bar> + \<bar>numberOf new\<bar>
     \<and> (list_all (\<lambda>p. isFinite (snd p)) tot \<longrightarrow> isFinite new
           \<longrightarrow> list_all (\<lambda>p. isFinite (snd p)) (setOwn k new tot))"
  by (induction tot) (auto split: if_splits)

lemma abs_total_nonneg: "0 \<le> (\<Sum>p\<leftarrow>tot. \<bar>numberOf (snd p)\<bar>)"
  by (induction tot) auto

lemma member_abs_le:
  "(k, v) \<in> set tot \<Longrightarrow> \<bar>numberOf v\<bar> \<le> (\<Sum>p\<leftarrow>tot. \<bar>numberOf (snd p)\<bar>)"
proof (induction tot)
  case Nil
  then show ?case by simp
next
  case (Cons p tot)
  show ?case
  proof (cases "p = (k, v)")
    case True
    then show ?thesis using abs_total_nonneg[of tot] by simp
  next
    case False
    with Cons have "\<bar>numberOf v\<bar> \<le> (\<Sum>p\<leftarrow>tot. \<bar>numberOf (snd p)\<bar>)" by simp
    then show ?thesis by simp
  qed
qed

lemma addToTotals_step:
  assumes fin: "list_all (\<lambda>p. isFinite (snd p)) tot"
    and key: "ordinaryKey (propertyKey (category_med t))"
    and am: "amount t = Num a"
    and bound: "(\<Sum>p\<leftarrow>tot. \<bar>numberOf (snd p)\<bar>) + \<bar>a\<bar> < 2 ^ 53"
  shows "list_all (\<lambda>p. isFinite (snd p)) (addToTotals tot t)"
    and "(\<Sum>p\<leftarrow>addToTotals tot t. numberOf (snd p)) = (\<Sum>p\<leftarrow>tot. numberOf (snd p)) + a"
    and "(\<Sum>p\<leftarrow>addToTotals tot t. \<bar>numberOf (snd p)\<bar>) \<le> (\<Sum>p\<leftarrow>tot. \<bar>numberOf (snd p)\<bar>) + \<bar>a\<bar>"
proof -
  let ?k = "propertyKey (category_med t)"
  have nonneg: "0 \<le> (\<Sum>p\<leftarrow>tot. \<bar>numberOf (snd p)\<bar>)"
    by (rule abs_total_nonneg)
  have ka: "?k \<noteq> ascii ''__proto__''" "?k \<notin> set inheritedMethods"
    using key by (simp_all add: ordinaryKey_def)
  show "list_all (\<lambda>p. isFinite (snd p)) (addToTotals tot t)"
    and "(\<Sum>p\<leftarrow>addToTotals tot t. numberOf (snd p)) = (\<Sum>p\<leftarrow>tot. numberOf (snd p)) + a"
    and "(\<Sum>p\<leftarrow>addToTotals tot t. \<bar>numberOf (snd p)\<bar>) \<le> (\<Sum>p\<leftarrow>tot. \<bar>numberOf (snd p)\<bar>) + \<bar>a\<bar>"
  proof (atomize (full), cases "map_of tot ?k")
    case None
    have e: "toNumber a = Num a"
      using bound nonneg by (intro toNumber_exact) linarith
    have "addToTotals tot t = tot @ [(?k, NumberVal (Num a))]"
      using None ka by (simp add: addToTotals_def Let_def setOwn_absent am e)
    then show "list_all (\<lambda>p. isFinite (snd p)) (addToTotals tot t)
      \<and> (\<Sum>p\<leftarrow>addToTotals tot t. numberOf (snd p)) = (\<Sum>p\<leftarrow>tot. numberOf (snd p)) + a
      \<and> (\<Sum>p\<leftarrow>addToTotals tot t. \<bar>numberOf (snd p)\<bar>) \<le> (\<Sum>p\<leftarrow>tot. \<bar>numberOf (snd p)\<bar>) + \<bar>a\<bar>"
      using fin by simp
  next
    case (Some old)
    then have "(?k, old) \<in> set tot" by (rule map_of_SomeD)
    with fin obtain v where old: "old = NumberVal (Num v)"
      by (auto simp: list_all_iff isFinite_conv)
    have "\<bar>v\<bar> \<le> (\<Sum>p\<leftarrow>tot. \<bar>numberOf (snd p)\<bar>)"
      using member_abs_le[OF \<open>(?k, old) \<in> set tot\<close>] old by simp
    then have "\<bar>v + a\<bar> < 2 ^ 53"
      using bound by linarith
    then have e: "toNumber (v + a) = Num (v + a)"
      by (rule toNumber_exact)
    have tv: "jsAdd (if truthy (Num v) then Num v else Num 0) (Num a) = Num (v + a)"
      using e by (cases "v = 0") simp_all
    have upd: "addToTotals tot t = setOwn ?k (NumberVal (Num (v + a))) tot"
      using Some old tv by (simp add: addToTotals_def Let_def am)
    from setOwn_present[OF Some, of "NumberVal (Num (v + a))"] fin
    show "list_all (\<lambda>p. isFinite (snd p)) (addToTotals tot t)
      \<and> (\<Sum>p\<leftarrow>addToTotals tot t. numberOf (snd p)) = (\<Sum>p\<leftarrow>tot. numberOf (snd p)) + a
      \<and> (\<Sum>p\<leftarrow>addToTotals tot t. \<bar>numberOf (snd p)\<bar>) \<le> (\<Sum>p\<leftarrow>tot. \<bar>numberOf (snd p)\<bar>) + \<bar>a\<bar>"
      unfolding upd old by simp
  qed
qed

lemma foldl_addToTotals:
  assumes "list_all (\<lambda>p. isFinite (snd p)) tot"
    and "list_all (\<lambda>t. ordinaryKey (propertyKey (category_med t)) \<and> finiteAmount t) ts"
    and "(\<Sum>p\<leftarrow>tot. \<bar>numberOf (snd p)\<bar>) + magnitude ts < 2 ^ 53"
  shows "list_all (\<lambda>p. isFinite (snd p)) (foldl addToTotals tot ts)
     \<and> (\<Sum>p\<leftarrow>foldl addToTotals tot ts. numberOf (snd p))
          = (\<Sum>p\<leftarrow>tot. numberOf (snd p)) + (\<Sum>t\<leftarrow>ts. amt t)
     \<and> (\<Sum>p\<leftarrow>foldl addToTotals tot ts. \<bar>numberOf (snd p)\<bar>)
          \<le> (\<Sum>p\<leftarrow>tot. \<bar>numberOf (snd p)\<bar>) + magnitude ts"
  using assms
proof (induction ts arbitrary: tot)
  case Nil
  then show ?case by (simp add: magnitude_def)
next
  case (Cons t ts)
  from Cons.prems(2) obtain a where a: "amount t = Num a"
    and key: "ordinaryKey (propertyKey (category_med t))"
    and rest: "list_all (\<lambda>t. ordinaryKey (propertyKey (category_med t)) \<and> finiteAmount t) ts"
    by (auto simp: finiteAmount_def split: jsnum.splits)
  have am: "amt t = a" by (simp add: amt_def a)
  have mag: "magnitude (t # ts) = \<bar>a\<bar> + magnitude ts"
    by (simp add: magnitude_def am)
  have m0: "0 \<le> magnitude ts"
    unfolding magnitude_def by (induction ts) auto
  have b: "(\<Sum>p\<leftarrow>tot. \<bar>numberOf (snd p)\<bar>) + \<bar>a\<bar> < 2 ^ 53"
    using Cons.prems(3) mag m0 by linarith
  note step = addToTotals_step[OF Cons.prems(1) key a b]
  have "(\<Sum>p\<leftarrow>addToTotals tot t. \<bar>numberOf (snd p)\<bar>) + magnitude ts < 2 ^ 53"
    using step(3) Cons.prems(3) mag by linarith
  from Cons.IH[OF step(1) rest this] step(2,3) show ?case
    by (simp add: mag am)
qed

lemma abs_total_ge: "\<bar>\<Sum>p\<leftarrow>tot. numberOf (snd p)\<bar> \<le> (\<Sum>p\<leftarrow>tot. \<bar>numberOf (snd p)\<bar>)"
  by (induction tot) auto

lemma sumValues_exact:
  "list_all (\<lambda>p. isFinite (snd p)) tot \<Longrightarrow> (\<Sum>p\<leftarrow>tot. \<bar>numberOf (snd p)\<bar>) < 2 ^ 53
     \<Longrightarrow> sumValues (map snd tot) = Some (Num (\<Sum>p\<leftarrow>tot. numberOf (snd p)))"
proof (induction tot)
  case Nil
  then show ?case by simp
next
  case (Cons p tot)
  then obtain n where n: "snd p = NumberVal (Num n)"
    by (auto simp: isFinite_conv)
  have "(\<Sum>p\<leftarrow>tot. \<bar>numberOf (snd p)\<bar>) < 2 ^ 53"
    using Cons.prems(2) by (simp add: n)
  with Cons have ih: "sumValues (map snd tot) = Some (Num (\<Sum>p\<leftarrow>tot. numberOf (snd p)))"
    by simp
  have "\<bar>n + (\<Sum>p\<leftarrow>tot. numberOf (snd p))\<bar> < 2 ^ 53"
    using Cons.prems(2) abs_total_ge[of tot] by (simp add: n)
  then have "toNumber (n + (\<Sum>p\<leftarrow>tot. numberOf (snd p))) = Num (n + (\<Sum>p\<leftarrow>tot. numberOf (snd p)))"
    by (rule toNumber_exact)
  then show ?case by (simp add: n ih)
qed

lemma foldl_amounts_exact:
  "list_all finiteAmount ts \<Longrightarrow> \<bar>s\<bar> + magnitude ts < 2 ^ 53
     \<Longrightarrow> foldl (\<lambda>sum t. jsAdd sum (amount t)) (Num s) ts = Num (s + (\<Sum>t\<leftarrow>ts. amt t))"
proof (induction ts arbitrary: s)
  case Nil
  then show ?case by simp
next
  case (Cons t ts)
  then obtain a where a: "amount t = Num a"
    by (auto simp: finiteAmount_def split: jsnum.splits)
  have am: "amt t = a" by (simp add: amt_def a)
  have m0: "0 \<le> magnitude ts"
    unfolding magnitude_def by (induction ts) auto
  have mag: "magnitude (t # ts) = \<bar>a\<bar> + magnitude ts"
    by (simp add: magnitude_def am)
  have "\<bar>s + a\<bar> < 2 ^ 53" using Cons.prems(2) mag m0 by linarith
  then have e: "toNumber (s + a) = Num (s + a)" by (rule toNumber_exact)
  have "\<bar>s + a\<bar> + magnitude ts < 2 ^ 53" using Cons.prems(2) mag by linarith
  from Cons.IH[OF _ this] Cons.prems(1) show ?case
    by (simp add: a e am)
qed

lemma mset_ownEntries: "mset (ownEntries tot) = mset tot"
  by (simp add: ownEntries_def)

lemma sum_list_ownEntries: "(\<Sum>p\<leftarrow>ownEntries tot. f p) = (\<Sum>p\<leftarrow>tot. (f p :: int))"
proof -
  have "mset (map f (ownEntries tot)) = mset (map f tot)"
    by (simp only: mset_map mset_ownEntries)
  then have "sum_mset (mset (map f (ownEntries tot))) = sum_mset (mset (map f tot))"
    by simp
  then show ?thesis by (simp only: sum_mset_sum_list)
qed

lemma list_all_ownEntries: "list_all P (ownEntries tot) = list_all P tot"
  using mset_eq_setD[OF mset_ownEntries[of tot]] by (simp add: list_all_iff)

lemma categoryTotals_sum_to_expense:
  assumes "list_all (\<lambda>t. ordinaryKey (propertyKey (category_med t)) \<and> finiteAmount t)
             (monthExpenses T M)"
    and "magnitude (monthExpenses T M) < 2 ^ 53"
  shows "sumValues (chartData (categoryTotals T M)) = Some (expense T M)"
proof -
  let ?es = "monthExpenses T M"
  let ?tot = "foldl addToTotals [] ?es"
  have fin: "list_all finiteAmount ?es"
    using assms(1) by (simp add: list_all_iff)
  from foldl_addToTotals[of "[]" ?es] assms
  have t: "list_all (\<lambda>p. isFinite (snd p)) ?tot"
    "(\<Sum>p\<leftarrow>?tot. numberOf (snd p)) = (\<Sum>t\<leftarrow>?es. amt t)"
    "(\<Sum>p\<leftarrow>?tot. \<bar>numberOf (snd p)\<bar>) < 2 ^ 53"
    by simp_all
  have o: "list_all (\<lambda>p. isFinite (snd p)) (ownEntries ?tot)"
    "(\<Sum>p\<leftarrow>ownEntries ?tot. \<bar>numberOf (snd p)\<bar>) < 2 ^ 53"
    using t(1,3) by (simp_all only: list_all_ownEntries sum_list_ownEntries)
  have c: "chartData (categoryTotals T M) = map snd (ownEntries ?tot)"
    by (simp add: categoryTotals_def renderCharts_def monthExpenses_def Let_def)
  have s: "sumAmounts ?es = Num (\<Sum>t\<leftarrow>?es. amt t)"
    using foldl_amounts_exact[OF fin, of 0] assms(2) by (simp add: sumAmounts_def)
  have e: "expense T M = sumAmounts ?es"
    by (cases "T = []")
      (simp_all add: expense_def renderDashboard_def Let_def monthExpenses_def
        currentMonthData_def sumAmounts_def)
  show ?thesis
    unfolding c e s using sumValues_exact[OF o] t(2)
    by (simp only: sum_list_ownEntries)
qed

end
